theory Spec2Isabelle
  imports Main
begin

section \<open>The machine the compiler runs on\<close>

text \<open>
  \<^verbatim>\<open>bfc.c\<close> is ISO C with POSIX calls. Its integer types are modelled as natural
  numbers and integers with the wrap-around written out, for an LP64 machine (x86-64
  Linux): \<^verbatim>\<open>size_t\<close> and \<^verbatim>\<open>long\<close> have 64 bits, \<^verbatim>\<open>unsigned int\<close> has 32 bits and
  \<^verbatim>\<open>double\<close> is IEEE 754 binary64 with round-to-nearest-even. The width of
  \<^verbatim>\<open>long\<close> is a parameter of \<open>strtol\<close> and \<open>setup_info\<close> below: what becomes of
  a large cell-array size depends on it.
\<close>

definition SIZE_MAX :: nat where
  "SIZE_MAX = 2 ^ 64 - 1"

definition PTRDIFF_MAX :: nat where
  "PTRDIFF_MAX = 2 ^ 63 - 1"

text \<open>\<^verbatim>\<open>sizeof(*stack)\<close>, the size of a \<^verbatim>\<open>size_t\<close>.\<close>

definition sizeof_label :: nat where
  "sizeof_label = 8"

text \<open>\<^verbatim>\<open>#define STACK_SIZE 1024\<close>\<close>

definition STACK_SIZE :: nat where
  "STACK_SIZE = 1024"

text \<open>
  \<^verbatim>\<open>#define STACK_GROWTH_FACTOR 1.1\<close>. The constant is a \<^verbatim>\<open>double\<close>: the binary64
  number nearest to 1.1 is \<open>4953959590107546 / 2 ^ 52\<close> (bit pattern
  \<^verbatim>\<open>0x3FF199999999999A\<close>). The model keeps the numerator.
\<close>

definition STACK_GROWTH_FACTOR :: nat where
  "STACK_GROWTH_FACTOR = 4953959590107546"

text \<open>The number of binary digits of a natural number.\<close>

fun bitlen :: "nat \<Rightarrow> nat" where
  "bitlen n = (if n = 0 then 0 else Suc (bitlen (n div 2)))"

declare bitlen.simps [simp del]

text \<open>
  Rounding to 53 significant bits, ties to even: what binary64 arithmetic does to an
  exact result (no overflow or subnormal number occurs in the range used here). The
  rounding does not depend on the unit the number is counted in, as long as the unit is
  a power of two.
\<close>

definition round53 :: "nat \<Rightarrow> nat" where
  "round53 m =
     (if m < 2 ^ 53 then m
      else let s = bitlen m - 53; q = m div 2 ^ s; r = m mod 2 ^ s; h = 2 ^ (s - 1)
           in if h < r \<or> (r = h \<and> odd q) then (q + 1) * 2 ^ s else q * 2 ^ s)"

text \<open>
  \<^verbatim>\<open>stack_size *= STACK_GROWTH_FACTOR\<close> with \<^verbatim>\<open>stack_size\<close> a \<^verbatim>\<open>size_t\<close>: the
  usual arithmetic conversions turn \<^verbatim>\<open>stack_size\<close> into a \<^verbatim>\<open>double\<close>
  (\<open>round53 n\<close>), the product with 1.1 is rounded to a \<^verbatim>\<open>double\<close> (here counted in
  units of \<open>2 ^ -52\<close>), and the assignment truncates it towards zero. The result is
  the mathematical value; storing it in a \<^verbatim>\<open>size_t\<close> is defined only below \<open>2 ^ 64\<close>.
\<close>

definition times_growth_factor :: "nat \<Rightarrow> nat" where
  "times_growth_factor n = round53 (round53 n * STACK_GROWTH_FACTOR) div 2 ^ 52"

section \<open>Text written by \<^verbatim>\<open>fprintf\<close>\<close>

abbreviation TAB :: char where
  "TAB \<equiv> CHR 0x09"

abbreviation NL :: char where
  "NL \<equiv> CHR 0x0A"

text \<open>Decimal digits of a natural number, most significant first.\<close>

fun digits :: "nat \<Rightarrow> string" where
  "digits n =
     (if n < 10 then [''0123456789'' ! n]
      else digits (n div 10) @ [''0123456789'' ! (n mod 10)])"

declare digits.simps [simp del]

text \<open>
  The conversion \<^verbatim>\<open>%u\<close> prints an \<^verbatim>\<open>unsigned int\<close>. The label arguments of
  \<^verbatim>\<open>compile\<close> are \<^verbatim>\<open>size_t\<close> values; on x86-64 the low 32 bits of the argument are
  printed. For values below \<open>2 ^ 32\<close> this is the value itself.
\<close>

definition print_u :: "nat \<Rightarrow> string" where
  "print_u n = digits (n mod 2 ^ 32)"

section \<open>The environment and the ways a run can end early\<close>

text \<open>
  What the operating system decides: which files \<^verbatim>\<open>fopen(name, "r")\<close> can read (and
  their bytes), which files \<^verbatim>\<open>fopen(name, "w")\<close> can create, and which requests for
  memory (in bytes) succeed.
\<close>

record world =
  readable :: "string \<Rightarrow> string option"
  creatable :: "string \<Rightarrow> bool"
  heap :: "nat \<Rightarrow> bool"

text \<open>
  \<^verbatim>\<open>malloc\<close> and \<^verbatim>\<open>realloc\<close>: no object is larger than \<open>PTRDIFF_MAX\<close> bytes;
  below that the environment decides.
\<close>

definition allocates :: "world \<Rightarrow> nat \<Rightarrow> bool" where
  "allocates w bytes = (bytes \<le> PTRDIFF_MAX \<and> heap w bytes)"

text \<open>
  The first group are the calls of \<^verbatim>\<open>error\<close>, which prints a message and ends the
  process with \<^verbatim>\<open>exit(EXIT_FAILURE)\<close>. The second group marks executions that ISO C
  leaves undefined: an access outside the allocated loop stack, a read of a stack slot
  that was never written, and a conversion of a \<^verbatim>\<open>double\<close> that does not fit a
  \<^verbatim>\<open>size_t\<close>.
\<close>

datatype failure =
    Invalid_arguments
  | Missing_input
  | Could_not_read string
  | Could_not_write string
  | Out_of_memory_creating nat
  | Out_of_memory_increasing nat
  | Out_of_memory_extension
  | Out_of_bounds
  | Indeterminate_read
  | Unrepresentable_size

fun undefined_behaviour :: "failure \<Rightarrow> bool" where
  "undefined_behaviour Out_of_bounds = True"
| "undefined_behaviour Indeterminate_read = True"
| "undefined_behaviour Unrepresentable_size = True"
| "undefined_behaviour _ = False"

section \<open>\<^verbatim>\<open>compile\<close>\<close>

datatype stage = COMPILE | ASSEMBLE | LINK

record info_t =
  in_filename :: "string option"
  out_filename :: "string option"
  target :: stage
  cells_size :: nat

text \<open>
  The local variables of \<^verbatim>\<open>compile\<close> and the text written to \<^verbatim>\<open>as\<close> so far, one
  entry for each call of \<^verbatim>\<open>fprintf\<close>. The allocated block \<^verbatim>\<open>stack\<close> is a list with
  one entry for each element it has room for; \<open>None\<close> is a slot never written.
\<close>

record locals =
  out :: "string list"
  stack :: "nat option list"
  top :: nat
  stack_size :: nat
  loop :: nat

definition fprintf :: "string \<Rightarrow> locals \<Rightarrow> locals" where
  "fprintf txt s = s\<lparr>out := out s @ [txt]\<rparr>"

text \<open>
  \<^verbatim>\<open>realloc(stack, bytes)\<close> when it succeeds: room for \<open>bytes div sizeof_label\<close>
  elements, the old contents kept up to the smaller of the two sizes.
\<close>

definition realloc :: "nat option list \<Rightarrow> nat \<Rightarrow> nat option list" where
  "realloc st bytes =
     (let n = bytes div sizeof_label in take n st @ replicate (n - length st) None)"

text \<open>The body of \<^verbatim>\<open>if (top == stack_size)\<close> in \<^verbatim>\<open>case '['\<close>.\<close>

definition resize_stack :: "world \<Rightarrow> locals \<Rightarrow> failure + locals" where
  "resize_stack w s =
     (let n = times_growth_factor (stack_size s) in
      if SIZE_MAX < n then Inl Unrepresentable_size
      else let bytes = (sizeof_label * n) mod 2 ^ 64 in
        if allocates w bytes
        then Inr (s\<lparr>stack_size := n, stack := realloc (stack s) bytes\<rparr>)
        else Inl (Out_of_memory_increasing n))"

text \<open>
  \<^verbatim>\<open>stack[top++] = ++loop;\<close> followed by the three lines of the loop head. A list of
  texts under \<open>fold fprintf\<close> stands for one \<^verbatim>\<open>fprintf\<close> call after the other, in the
  order of the list.
\<close>

definition push_label :: "locals \<Rightarrow> failure + locals" where
  "push_label s =
     (let l = (loop s + 1) mod 2 ^ 64 in
      if top s < length (stack s)
      then Inr (fold fprintf
             [TAB # ''cmp DWORD PTR [edi], 0'' @ [NL],
              TAB # ''jz .LE'' @ print_u l @ [NL],
              ''.LB'' @ print_u l @ [CHR '':'', NL]]
             (s\<lparr>loop := l, stack := (stack s)[top s := Some l], top := (top s + 1) mod 2 ^ 64\<rparr>))
      else Inl Out_of_bounds)"

text \<open>
  \<^verbatim>\<open>case ']'\<close>: \<^verbatim>\<open>stack[--top]\<close> is read for the jump, \<^verbatim>\<open>stack[top]\<close> again for the
  label. Decrementing \<^verbatim>\<open>top\<close> at 0 wraps to \<open>SIZE_MAX\<close>; the read there is outside the
  block.
\<close>

definition pop_label :: "locals \<Rightarrow> failure + locals" where
  "pop_label s =
     (let t = (top s + SIZE_MAX) mod 2 ^ 64 in
      if t < length (stack s)
      then (case stack s ! t of
              None \<Rightarrow> Inl Indeterminate_read
            | Some l \<Rightarrow>
                Inr (fold fprintf
                      [TAB # ''cmp DWORD PTR [edi], 0'' @ [NL],
                       TAB # ''jnz .LB'' @ print_u l @ [NL],
                       ''.LE'' @ print_u l @ [CHR '':'', NL]]
                      (s\<lparr>top := t\<rparr>)))
      else Inl Out_of_bounds)"

text \<open>The \<^verbatim>\<open>switch (c)\<close> of the scanning loop: one input byte.\<close>

definition step :: "world \<Rightarrow> char \<Rightarrow> locals \<Rightarrow> failure + locals" where
  "step w c s =
     (if c = CHR ''>'' then Inr (fprintf (TAB # ''add edi, 4'' @ [NL]) s)
      else if c = CHR ''<'' then Inr (fprintf (TAB # ''sub edi, 4'' @ [NL]) s)
      else if c = CHR ''+'' then Inr (fprintf (TAB # ''inc DWORD PTR [edi]'' @ [NL]) s)
      else if c = CHR ''-'' then Inr (fprintf (TAB # ''dec DWORD PTR [edi]'' @ [NL]) s)
      else if c = CHR '','' then
        Inr (fold fprintf
              [TAB # ''mov eax, 3'' @ [NL],
               TAB # ''mov ebx, 0'' @ [NL],
               TAB # ''mov ecx, edi'' @ [NL],
               TAB # ''mov edx, 1'' @ [NL],
               TAB # ''int 0x80'' @ [NL]] s)
      else if c = CHR ''.'' then
        Inr (fold fprintf
              [TAB # ''mov eax, 4'' @ [NL],
               TAB # ''mov ebx, 1'' @ [NL],
               TAB # ''mov ecx, edi'' @ [NL],
               TAB # ''mov edx, 1'' @ [NL],
               TAB # ''int 0x80'' @ [NL]] s)
      else if c = CHR ''['' then
        (if top s = stack_size s
         then (case resize_stack w s of Inl e \<Rightarrow> Inl e | Inr s' \<Rightarrow> push_label s')
         else push_label s)
      else if c = CHR '']'' then pop_label s
      else Inr s)"

text \<open>\<^verbatim>\<open>while ((c = fgetc(src)) != EOF)\<close> over the bytes of the source file.\<close>

fun scan :: "world \<Rightarrow> locals \<Rightarrow> string \<Rightarrow> failure + locals" where
  "scan w s [] = Inr s"
| "scan w s (c # cs) = (case step w c s of Inl e \<Rightarrow> Inl e | Inr s' \<Rightarrow> scan w s' cs)"

text \<open>The seven \<^verbatim>\<open>fprintf\<close> calls before the loop and the three after it.\<close>

definition prologue :: "info_t \<Rightarrow> string list" where
  "prologue info =
     [''.intel_syntax noprefix'' @ [NL],
      ''.section .bss'' @ [NL],
      TAB # ''.lcomm cells, '' @ print_u (cells_size info) @ [NL],
      ''.section .text'' @ [NL],
      ''.globl _start'' @ [NL],
      ''_start:'' @ [NL],
      TAB # ''mov edi, OFFSET cells'' @ [NL]]"

definition epilogue :: "string list" where
  "epilogue = [''mov eax, 1'' @ [NL], ''mov ebx, 0'' @ [NL], ''int 0x80'' @ [NL]]"

text \<open>The locals when the loop is entered, after \<^verbatim>\<open>malloc\<close> succeeded.\<close>

definition start :: "info_t \<Rightarrow> locals" where
  "start info =
     \<lparr>out = prologue info, stack = replicate STACK_SIZE None, top = 0,
      stack_size = STACK_SIZE, loop = 0\<rparr>"

text \<open>
  \<^verbatim>\<open>compile(info, asm_filename, src_filename)\<close>. The result is the text of the assembly
  file when the function returns. A run that ends in \<^verbatim>\<open>error\<close> leaves the text written
  so far in the file; the model does not keep it.
\<close>

definition compile :: "world \<Rightarrow> info_t \<Rightarrow> string \<Rightarrow> string \<Rightarrow> failure + string list" where
  "compile w info asm_filename src_filename =
     (case readable w src_filename of
        None \<Rightarrow> Inl (Could_not_read src_filename)
      | Some src \<Rightarrow>
          if \<not> creatable w asm_filename then Inl (Could_not_write asm_filename)
          else if \<not> allocates w (STACK_SIZE * sizeof_label)
          then Inl (Out_of_memory_creating STACK_SIZE)
          else (case scan w (start info) src of
                  Inl e \<Rightarrow> Inl e
                | Inr s \<Rightarrow> Inr (out s @ epilogue)))"

section \<open>A read outside the block, as the machine performs it\<close>

text \<open>
  ISO C leaves the read \<^verbatim>\<open>stack[--top]\<close> undefined when the index is outside the block,
  and \<open>pop_label\<close> marks it so. The compiled program does not stop there: the read is
  a load from the address the index denotes (for \<^verbatim>\<open>top\<close> wrapped to \<open>SIZE_MAX\<close>, the word
  just below the block), the value found is printed as the label, and the run goes on.
  What the memory holds there is decided by the allocator and by what ran before, not
  by the source or the cell-array size; \<open>beyond t\<close> stands for the \<^verbatim>\<open>size_t\<close> found at
  index \<open>t\<close>. Inside the block nothing changes, and a write outside the block stays
  marked as undefined: the model says nothing about a run after it.
\<close>

definition pop_label_machine :: "(nat \<Rightarrow> nat) \<Rightarrow> locals \<Rightarrow> failure + locals" where
  "pop_label_machine beyond s =
     (let t = (top s + SIZE_MAX) mod 2 ^ 64 in
      if t < length (stack s) then pop_label s
      else Inr (fold fprintf
                  [TAB # ''cmp DWORD PTR [edi], 0'' @ [NL],
                   TAB # ''jnz .LB'' @ print_u (beyond t) @ [NL],
                   ''.LE'' @ print_u (beyond t) @ [CHR '':'', NL]]
                  (s\<lparr>top := t\<rparr>)))"

definition step_machine :: "world \<Rightarrow> (nat \<Rightarrow> nat) \<Rightarrow> char \<Rightarrow> locals \<Rightarrow> failure + locals" where
  "step_machine w beyond c s =
     (if c = CHR '']'' then pop_label_machine beyond s else step w c s)"

fun scan_machine :: "world \<Rightarrow> (nat \<Rightarrow> nat) \<Rightarrow> locals \<Rightarrow> string \<Rightarrow> failure + locals" where
  "scan_machine w beyond s [] = Inr s"
| "scan_machine w beyond s (c # cs) =
     (case step_machine w beyond c s of
        Inl e \<Rightarrow> Inl e
      | Inr s' \<Rightarrow> scan_machine w beyond s' cs)"

definition compile_machine ::
  "world \<Rightarrow> (nat \<Rightarrow> nat) \<Rightarrow> info_t \<Rightarrow> string \<Rightarrow> string \<Rightarrow> failure + string list" where
  "compile_machine w beyond info asm_filename src_filename =
     (case readable w src_filename of
        None \<Rightarrow> Inl (Could_not_read src_filename)
      | Some src \<Rightarrow>
          if \<not> creatable w asm_filename then Inl (Could_not_write asm_filename)
          else if \<not> allocates w (STACK_SIZE * sizeof_label)
          then Inl (Out_of_memory_creating STACK_SIZE)
          else (case scan_machine w beyond (start info) src of
                  Inl e \<Rightarrow> Inl e
                | Inr s \<Rightarrow> Inr (out s @ epilogue)))"

section \<open>\<^verbatim>\<open>setup_info\<close> and \<^verbatim>\<open>main\<close>\<close>

text \<open>
  \<^verbatim>\<open>strtol(optarg, &tail, 0)\<close> of the C library, after ISO C 7.22.1.4: white space is
  skipped, then an optional sign, then with base 0 the prefix decides the base
  (\<^verbatim>\<open>0x\<close> before a hexadecimal digit: 16; a leading \<^verbatim>\<open>0\<close>: 8; otherwise 10), then the
  longest run of digits of that base is read. Without any digit the value is 0 and
  \<^verbatim>\<open>tail\<close> is the whole string. A value outside \<^verbatim>\<open>long\<close> is clamped and \<^verbatim>\<open>errno\<close> is
  set to \<^verbatim>\<open>ERANGE\<close>. The first argument is \<^verbatim>\<open>LONG_MAX\<close> of the platform; the result
  is (\<^verbatim>\<open>errno\<close> is set, the value, \<^verbatim>\<open>tail\<close>).
\<close>

definition isspace :: "char \<Rightarrow> bool" where
  "isspace c = (c = CHR '' '' \<or> (9 \<le> (of_char c :: nat) \<and> (of_char c :: nat) \<le> 13))"

definition digit_value :: "char \<Rightarrow> nat option" where
  "digit_value c =
     (let n = of_char c :: nat in
      if 48 \<le> n \<and> n \<le> 57 then Some (n - 48)
      else if 97 \<le> n \<and> n \<le> 122 then Some (n - 87)
      else if 65 \<le> n \<and> n \<le> 90 then Some (n - 55)
      else None)"

definition is_digit :: "nat \<Rightarrow> char \<Rightarrow> bool" where
  "is_digit base c = (case digit_value c of None \<Rightarrow> False | Some v \<Rightarrow> v < base)"

fun read_digits :: "nat \<Rightarrow> nat \<Rightarrow> string \<Rightarrow> nat \<times> string" where
  "read_digits base acc [] = (acc, [])"
| "read_digits base acc (c # cs) =
     (if is_digit base c then read_digits base (acc * base + the (digit_value c)) cs
      else (acc, c # cs))"

definition strtol :: "int \<Rightarrow> string \<Rightarrow> bool \<times> int \<times> string" where
  "strtol long_max nptr =
     (let s1 = dropWhile isspace nptr;
          neg = (s1 \<noteq> [] \<and> hd s1 = CHR ''-'');
          s2 = (if s1 \<noteq> [] \<and> (hd s1 = CHR ''-'' \<or> hd s1 = CHR ''+'') then tl s1 else s1);
          hex = (2 < length s2 \<and> s2 ! 0 = CHR ''0'' \<and> (s2 ! 1 = CHR ''x'' \<or> s2 ! 1 = CHR ''X'') \<and>
                 is_digit 16 (s2 ! 2));
          base = (if hex then 16 else if s2 \<noteq> [] \<and> hd s2 = CHR ''0'' then 8 else 10);
          s3 = (if hex then drop 2 s2 else s2);
          (mag, rest) = read_digits base 0 s3
      in if s3 = [] \<or> \<not> is_digit base (hd s3) then (False, 0, nptr)
         else if neg then
           (if long_max + 1 < int mag then (True, - long_max - 1, rest)
            else (False, - int mag, rest))
         else (if long_max < int mag then (True, long_max, rest) else (False, int mag, rest)))"

text \<open>The values of \<^verbatim>\<open>enum stage\<close>, as \<^verbatim>\<open>info->target > COMPILE\<close> compares them.\<close>

fun stage_value :: "stage \<Rightarrow> nat" where
  "stage_value COMPILE = 0"
| "stage_value ASSEMBLE = 1"
| "stage_value LINK = 2"

text \<open>
  \<^verbatim>\<open>setup_info(info, argc, argv)\<close>. \<^verbatim>\<open>getopt\<close> belongs to the C library and is not
  modelled: the function takes what the successive calls \<^verbatim>\<open>getopt(argc, argv, "Scho:s:")\<close>
  return (the option character with \<^verbatim>\<open>optarg\<close>, \<^verbatim>\<open>'?'\<close> for an option it does not
  know) and the operands \<^verbatim>\<open>argv[optind]\<close>, ... left after the last option. The result
  is the returned flag and \<^verbatim>\<open>*info\<close> as the call leaves it. Storing the \<^verbatim>\<open>long\<close> in
  the \<^verbatim>\<open>unsigned int\<close> field \<^verbatim>\<open>cells_size\<close> reduces it modulo \<open>2 ^ 32\<close>.
\<close>

fun setup_info :: "int \<Rightarrow> info_t \<Rightarrow> (char \<times> string) list \<Rightarrow> string list \<Rightarrow> nat \<times> info_t" where
  "setup_info long_max info [] operands =
     (case operands of [] \<Rightarrow> (0, info) | name # _ \<Rightarrow> (1, info\<lparr>in_filename := Some name\<rparr>))"
| "setup_info long_max info ((c, optarg) # opts) operands =
     (if c = CHR ''S'' then
        setup_info long_max
          (if stage_value COMPILE < stage_value (target info) then info\<lparr>target := COMPILE\<rparr> else info)
          opts operands
      else if c = CHR ''c'' then
        setup_info long_max
          (if stage_value ASSEMBLE < stage_value (target info) then info\<lparr>target := ASSEMBLE\<rparr> else info)
          opts operands
      else if c = CHR ''o'' then
        setup_info long_max (info\<lparr>out_filename := Some optarg\<rparr>) opts operands
      else if c = CHR ''s'' then
        (case strtol long_max optarg of
           (errno, cells, tail) \<Rightarrow>
             if errno \<or> tail \<noteq> [] \<or> cells \<le> 0 then (0, info)
             else setup_info long_max (info\<lparr>cells_size := nat (cells mod 2 ^ 32)\<rparr>) opts operands)
      else (0, info))"

text \<open>
  \<^verbatim>\<open>replace_extension(name, ext)\<close>: the name up to its last dot, or all of it when it has
  none, followed by a dot and \<^verbatim>\<open>ext\<close>.
\<close>

definition replace_extension :: "world \<Rightarrow> string \<Rightarrow> char \<Rightarrow> failure + string" where
  "replace_extension w name ext =
     (let len = (if CHR ''.'' \<in> set name
                 then length name - Suc (length (takeWhile (\<lambda>c. c \<noteq> CHR ''.'') (rev name)))
                 else length name)
      in if allocates w (len + 3) then Inr (take len name @ [CHR ''.'', ext])
         else Inl Out_of_memory_extension)"

text \<open>
  \<^verbatim>\<open>main\<close> up to the end of phase 1; the result is what \<^verbatim>\<open>compile\<close> wrote. The calls of
  the assembler and the linker through \<^verbatim>\<open>system\<close> that follow are not modelled, and
  \<^verbatim>\<open>strdup\<close> is taken to succeed.
\<close>

definition main :: "int \<Rightarrow> world \<Rightarrow> (char \<times> string) list \<Rightarrow> string list \<Rightarrow> failure + string list" where
  "main long_max w opts operands =
     (case setup_info long_max
             \<lparr>in_filename = None, out_filename = None, target = LINK, cells_size = 4096\<rparr>
             opts operands of
        (ok, info) \<Rightarrow>
          if ok = 0 then Inl Invalid_arguments
          else (case in_filename info of
                  None \<Rightarrow> Inl Missing_input
                | Some src_filename \<Rightarrow>
                    (case (if target info = COMPILE \<and> out_filename info \<noteq> None
                           then Inr (the (out_filename info))
                           else replace_extension w src_filename (CHR ''s'')) of
                       Inl e \<Rightarrow> Inl e
                     | Inr asm_filename \<Rightarrow> compile w info asm_filename src_filename)))"

section \<open>Notions the properties are stated with\<close>

text \<open>The eight symbols of the source language.\<close>

definition symbol :: "char \<Rightarrow> bool" where
  "symbol c = (c \<in> set ''><+-,.[]'')"

text \<open>
  The number of loops left open after \<open>src\<close> when \<open>d\<close> were open before it; \<open>None\<close>
  when some \<^verbatim>\<open>]\<close> finds no loop open.
\<close>

fun closes :: "nat \<Rightarrow> string \<Rightarrow> nat option" where
  "closes d [] = Some d"
| "closes d (c # cs) =
     (if c = CHR ''['' then closes (Suc d) cs
      else if c = CHR '']'' then (case d of 0 \<Rightarrow> None | Suc d' \<Rightarrow> closes d' cs)
      else closes d cs)"

text \<open>
  A well-formed program: every \<^verbatim>\<open>[\<close> has a later matching \<^verbatim>\<open>]\<close> and the other way
  round, properly nested. In a well-formed text \<open>pre @ CHR ''['' # body @ CHR '']'' # post\<close>
  with \<open>body\<close> well-formed, the two brackets shown match each other.
\<close>

definition well_formed :: "string \<Rightarrow> bool" where
  "well_formed src = (closes 0 src = Some 0)"

text \<open>
  The invariant of the scanning loop: \<^verbatim>\<open>stack\<close> has room for \<^verbatim>\<open>stack_size\<close> elements,
  \<^verbatim>\<open>top\<close> is within it, the block is an object the allocator can have returned, and
  every slot below \<^verbatim>\<open>top\<close> has been written.
\<close>

definition good :: "locals \<Rightarrow> bool" where
  "good s =
     (length (stack s) = stack_size s \<and> top s \<le> stack_size s \<and> STACK_SIZE \<le> stack_size s \<and>
      sizeof_label * stack_size s \<le> PTRDIFF_MAX \<and> None \<notin> set (take (top s) (stack s)))"

text \<open>The three lines \<^verbatim>\<open>case '['\<close> writes for label \<open>l\<close>, and the three of \<^verbatim>\<open>case ']'\<close>.\<close>

definition loop_head :: "nat \<Rightarrow> string list" where
  "loop_head l =
     [TAB # ''cmp DWORD PTR [edi], 0'' @ [NL],
      TAB # ''jz .LE'' @ print_u l @ [NL],
      ''.LB'' @ print_u l @ [CHR '':'', NL]]"

definition loop_tail :: "nat \<Rightarrow> string list" where
  "loop_tail l =
     [TAB # ''cmp DWORD PTR [edi], 0'' @ [NL],
      TAB # ''jnz .LB'' @ print_u l @ [NL],
      ''.LE'' @ print_u l @ [CHR '':'', NL]]"

text \<open>The lines written for a symbol that is not a bracket; none for any other byte.\<close>

definition plain_lines :: "char \<Rightarrow> string list" where
  "plain_lines c =
     (if c = CHR ''>'' then [TAB # ''add edi, 4'' @ [NL]]
      else if c = CHR ''<'' then [TAB # ''sub edi, 4'' @ [NL]]
      else if c = CHR ''+'' then [TAB # ''inc DWORD PTR [edi]'' @ [NL]]
      else if c = CHR ''-'' then [TAB # ''dec DWORD PTR [edi]'' @ [NL]]
      else if c = CHR '','' then
        [TAB # ''mov eax, 3'' @ [NL], TAB # ''mov ebx, 0'' @ [NL], TAB # ''mov ecx, edi'' @ [NL],
         TAB # ''mov edx, 1'' @ [NL], TAB # ''int 0x80'' @ [NL]]
      else if c = CHR ''.'' then
        [TAB # ''mov eax, 4'' @ [NL], TAB # ''mov ebx, 1'' @ [NL], TAB # ''mov ecx, edi'' @ [NL],
         TAB # ''mov edx, 1'' @ [NL], TAB # ''int 0x80'' @ [NL]]
      else [])"




text \<open>
  The system calls of 32-bit Linux that the emitted text uses, with their numbers in the
  kernel's table (\<^verbatim>\<open>exit\<close> 1, \<^verbatim>\<open>read\<close> 3, \<^verbatim>\<open>write\<close> 4), and the descriptors of the
  standard streams. These are facts of the target platform, not of \<^verbatim>\<open>bfc.c\<close>; its
  epilogue relies on the same table for \<^verbatim>\<open>exit\<close>.
\<close>

datatype syscall = Sys_exit | Sys_read | Sys_write

fun syscall_number :: "syscall \<Rightarrow> nat" where
  "syscall_number Sys_exit = 1"
| "syscall_number Sys_read = 3"
| "syscall_number Sys_write = 4"

definition STDIN_FILENO :: nat where
  "STDIN_FILENO = 0"

definition STDOUT_FILENO :: nat where
  "STDOUT_FILENO = 1"

text \<open>
  The instructions that make the running program perform system call \<open>nr\<close> through
  \<^verbatim>\<open>int 0x80\<close> on descriptor \<open>fd\<close>, with the current cell as the buffer and a count of
  one byte.
\<close>

definition one_byte_call :: "nat \<Rightarrow> nat \<Rightarrow> string list" where
  "one_byte_call nr fd =
     [TAB # ''mov eax, '' @ digits nr @ [NL],
      TAB # ''mov ebx, '' @ digits fd @ [NL],
      TAB # ''mov ecx, edi'' @ [NL],
      TAB # ''mov edx, 1'' @ [NL],
      TAB # ''int 0x80'' @ [NL]]"

text \<open>
  An environment in which nothing fails: every file name reads as \<open>src\<close>, every file can
  be created and every request for memory within \<open>PTRDIFF_MAX\<close> succeeds.
\<close>

definition holding :: "string \<Rightarrow> string \<Rightarrow> string option" where
  "holding src name = Some src"

definition writable :: "string \<Rightarrow> bool" where
  "writable name = True"

definition plenty :: "nat \<Rightarrow> bool" where
  "plenty bytes = True"

definition friendly :: "string \<Rightarrow> world" where
  "friendly src = \<lparr>readable = holding src, creatable = writable, heap = plenty\<rparr>"

text \<open>The compilation information \<^verbatim>\<open>main\<close> starts from, with an input file name.\<close>

definition default_info :: info_t where
  "default_info =
     \<lparr>in_filename = Some ''a.bf'', out_filename = None, target = LINK, cells_size = 4096\<rparr>"

text \<open>\<^verbatim>\<open>LONG_MAX\<close> where \<^verbatim>\<open>long\<close> has 64 bits and where it has 32.\<close>

definition LONG_MAX_64 :: int where
  "LONG_MAX_64 = 2 ^ 63 - 1"

definition LONG_MAX_32 :: int where
  "LONG_MAX_32 = 2 ^ 31 - 1"


definition deep_nest :: string where
  "deep_nest = replicate (Suc STACK_SIZE) (CHR ''['')"

text \<open>
  Two contents of the memory around the stack block: the word 8209 everywhere (below
  a block of 8192 bytes the GNU allocator keeps the size of its chunk with a flag,
  8208 + 1), and zero everywhere.
\<close>

definition chunk_sizes :: "nat \<Rightarrow> nat" where
  "chunk_sizes t = 8209"

definition zeroes :: "nat \<Rightarrow> nat" where
  "zeroes t = 0"

section \<open>Lemmas\<close>

subsection \<open>Rounding and the growth of the capacity\<close>

lemma bitlen_bounds: "0 < n \<Longrightarrow> 2 ^ (bitlen n - 1) \<le> n \<and> n < 2 ^ bitlen n"
proof (induction n rule: bitlen.induct)
  case (1 n)
  show ?case
  proof (cases "n div 2 = 0")
    case True
    with "1.prems" have "n = 1" by (simp add: div_eq_0_iff) 
    then show ?thesis by (simp add: bitlen.simps)
  next
    case False
    with 1 have ih: "2 ^ (bitlen (n div 2) - 1) \<le> n div 2" "n div 2 < 2 ^ bitlen (n div 2)"
      by auto
    from False have pos: "0 < bitlen (n div 2)" by (simp add: bitlen.simps)
    have bl: "bitlen n = Suc (bitlen (n div 2))" using "1.prems" by (simp add: bitlen.simps)
    have "(2::nat) ^ (bitlen n - 1) = 2 * 2 ^ (bitlen (n div 2) - 1)"
      using pos bl by (cases "bitlen (n div 2)") auto
    moreover have "(2::nat) ^ bitlen n = 2 * 2 ^ bitlen (n div 2)" using bl by simp
    ultimately show ?thesis using ih by linarith
  qed
qed

lemma bitlen_ge: "2 ^ k \<le> n \<Longrightarrow> k < bitlen n"
proof -
  assume a: "2 ^ k \<le> n"
  moreover have "(0::nat) < 2 ^ k" by simp
  ultimately have "0 < n" by linarith
  then have "n < 2 ^ bitlen n" using bitlen_bounds by blast
  with a have "(2::nat) ^ k < 2 ^ bitlen n" by linarith
  then show ?thesis by simp
qed

text \<open>The shape of a rounding step above \<open>2 ^ 53\<close>.\<close>

lemma round53_cases:
  assumes "\<not> m < 2 ^ 53"
  obtains p h r where "p = 2 * h" "h \<le> m div 2 ^ 53" "r < p" "r \<le> m"
    "round53 m = m - r \<and> r \<le> h \<or> round53 m = m - r + p \<and> h \<le> r"
proof -
  define s where "s = bitlen m - 53"
  define q where "q = m div 2 ^ s"
  define r where "r = m mod 2 ^ s"
  define p :: nat where "p = 2 ^ s"
  define h :: nat where "h = 2 ^ (s - 1)"
  from assms have big: "2 ^ 53 \<le> m" by simp
  then have bl: "53 < bitlen m" by (rule bitlen_ge)
  then have s1: "1 \<le> s" and bs: "bitlen m - 1 = (s - 1) + 53" by (simp_all add: s_def)
  from big have "0 < m" by simp
  then have "2 ^ (bitlen m - 1) \<le> m" using bitlen_bounds by blast
  then have "2 ^ (s - 1) * 2 ^ 53 \<le> m" unfolding bs power_add .
  then have h: "h \<le> m div 2 ^ 53"
    unfolding h_def by (simp add: less_eq_div_iff_mult_less_eq)
  have two: "p = 2 * h" unfolding p_def h_def using s1 by (cases s) auto
  have m: "m = q * p + r" unfolding q_def r_def p_def by (rule div_mult_mod_eq [symmetric])
  have rp: "r < p" unfolding r_def p_def by simp
  have "round53 m = (if h < r \<or> (r = h \<and> odd q) then (q + 1) * p else q * p)"
    using assms by (simp add: round53_def Let_def s_def q_def r_def p_def h_def)
  then have "round53 m = m - r \<and> r \<le> h \<or> round53 m = m - r + p \<and> h \<le> r"
    using m by (auto split: if_splits)
  moreover have "r \<le> m" using m by simp
  ultimately show ?thesis using that two h rp by blast
qed

lemma round53_lower: "m - m div 2 ^ 53 \<le> round53 m"
proof (cases "m < 2 ^ 53")
  case True
  then show ?thesis by (simp add: round53_def)
next
  case False
  then obtain p h r where "p = 2 * h" "h \<le> m div 2 ^ 53" "r < p" "r \<le> m"
    "round53 m = m - r \<and> r \<le> h \<or> round53 m = m - r + p \<and> h \<le> r"
    by (rule round53_cases)
  then show ?thesis by linarith
qed

lemma round53_upper: "round53 m \<le> m + m div 2 ^ 53"
proof (cases "m < 2 ^ 53")
  case True
  then show ?thesis by (simp add: round53_def)
next
  case False
  then obtain p h r where "p = 2 * h" "h \<le> m div 2 ^ 53" "r < p" "r \<le> m"
    "round53 m = m - r \<and> r \<le> h \<or> round53 m = m - r + p \<and> h \<le> r"
    by (rule round53_cases)
  then show ?thesis by linarith
qed

lemma round53_lower_scaled: "(2 ^ 53 - 1) * m \<le> 2 ^ 53 * round53 m"
proof -
  have "m div 2 ^ 53 * 2 ^ 53 \<le> m" by simp
  moreover have "m div 2 ^ 53 \<le> m" by simp
  ultimately show ?thesis using round53_lower [of m] by simp
qed

lemma round53_upper_scaled: "2 ^ 53 * round53 m \<le> (2 ^ 53 + 1) * m"
proof -
  have "m div 2 ^ 53 * 2 ^ 53 \<le> m" by simp
  then show ?thesis using round53_upper [of m] by simp
qed

lemma times_growth_factor_10: "times_growth_factor 10 = 11"
  by (simp add: times_growth_factor_def STACK_GROWTH_FACTOR_def round53_def bitlen.simps Let_def)

lemma times_growth_factor_progress:
  assumes "10 \<le> n"
  shows "n + 1 \<le> times_growth_factor n"
proof (cases "n = 10")
  case True
  then show ?thesis by (simp add: times_growth_factor_10)
next
  case False
  with assms have n: "11 \<le> n" by simp
  define a where "a = round53 n"
  define g where "g = round53 (a * 4953959590107546)"
  have 1: "(2 ^ 53 - 1) * n \<le> 2 ^ 53 * a"
    unfolding a_def by (rule round53_lower_scaled)
  have 2: "(2 ^ 53 - 1) * (a * 4953959590107546) \<le> 2 ^ 53 * g"
    unfolding g_def by (rule round53_lower_scaled)
  have "(n + 1) * 2 ^ 52 \<le> g" using 1 2 n by simp
  then have "n + 1 \<le> g div 2 ^ 52"
    by (simp add: less_eq_div_iff_mult_less_eq)
  then show ?thesis
    by (simp add: times_growth_factor_def STACK_GROWTH_FACTOR_def a_def g_def)
qed

lemma times_growth_factor_upper: "5 * times_growth_factor n \<le> 6 * n"
proof -
  define a where "a = round53 n"
  define g where "g = round53 (a * 4953959590107546)"
  have 1: "2 ^ 53 * a \<le> (2 ^ 53 + 1) * n"
    unfolding a_def by (rule round53_upper_scaled)
  have 2: "2 ^ 53 * g \<le> (2 ^ 53 + 1) * (a * 4953959590107546)"
    unfolding g_def by (rule round53_upper_scaled)
  have "g div 2 ^ 52 * 2 ^ 52 \<le> g" by simp
  with 1 2 have "5 * (g div 2 ^ 52) \<le> 6 * n" by simp
  then show ?thesis
    by (simp add: times_growth_factor_def STACK_GROWTH_FACTOR_def a_def g_def)
qed

subsection \<open>Resizing, pushing and popping\<close>

lemma closes_append:
  "closes d (xs @ ys) = (case closes d xs of None \<Rightarrow> None | Some k \<Rightarrow> closes k ys)"
  by (induction xs arbitrary: d) (auto split: nat.splits)

lemma closes_count:
  "closes d xs = Some k \<Longrightarrow> k + count_list xs (CHR '']'') = d + count_list xs (CHR ''['')"
  by (induction xs arbitrary: d) (auto split: nat.splits if_splits)

lemma scan_append:
  "scan w s (xs @ ys) = (case scan w s xs of Inl e \<Rightarrow> Inl e | Inr s' \<Rightarrow> scan w s' ys)"
  by (induction xs arbitrary: s) (auto split: sum.splits)

lemma good_start: "good (start info)"
  by (simp add: good_def start_def STACK_SIZE_def sizeof_label_def PTRDIFF_MAX_def)

lemma good_fprintf [simp]: "good (fprintf t s) = good s"
  by (simp add: good_def fprintf_def)

lemma fprintf_sel [simp]:
  "top (fprintf t s) = top s" "stack (fprintf t s) = stack s"
  "stack_size (fprintf t s) = stack_size s" "loop (fprintf t s) = loop s"
  "out (fprintf t s) = out s @ [t]"
  by (simp_all add: fprintf_def)

lemma resize_stack_good:
  assumes "good s" "top s = stack_size s"
  shows "resize_stack w s = Inl (Out_of_memory_increasing (times_growth_factor (stack_size s))) \<and>
      \<not> allocates w (sizeof_label * times_growth_factor (stack_size s)) \<or>
    allocates w (sizeof_label * times_growth_factor (stack_size s)) \<and>
    (\<exists>s'. resize_stack w s = Inr s' \<and> good s' \<and> top s' < stack_size s' \<and>
       stack_size s' = times_growth_factor (stack_size s) \<and>
       stack s' = stack s @ replicate (stack_size s' - stack_size s) None \<and>
       top s' = top s \<and> out s' = out s \<and> loop s' = loop s)"
proof -
  define n where "n = stack_size s"
  define g where "g = times_growth_factor n"
  from assms have n: "1024 \<le> n" "8 * n \<le> 2 ^ 63 - 1" "length (stack s) = n"
    "None \<notin> set (stack s)"
    by (auto simp add: good_def n_def STACK_SIZE_def sizeof_label_def PTRDIFF_MAX_def)
  have lo: "n + 1 \<le> g" unfolding g_def using n(1) by (intro times_growth_factor_progress) simp
  have hi: "5 * g \<le> 6 * n" unfolding g_def by (rule times_growth_factor_upper)
  from hi n(2) have fits: "\<not> SIZE_MAX < g" and nowrap: "8 * g mod 2 ^ 64 = 8 * g"
    by (simp_all add: SIZE_MAX_def)
  show ?thesis
  proof (cases "allocates w (8 * g)")
    case False
    then show ?thesis using fits nowrap
      by (simp add: resize_stack_def Let_def sizeof_label_def g_def n_def)
  next
    case True
    then have "8 * g \<le> 2 ^ 63 - 1" by (simp add: allocates_def PTRDIFF_MAX_def)
    then show ?thesis using True fits nowrap lo n assms
      by (simp add: resize_stack_def Let_def sizeof_label_def g_def [symmetric] n_def [symmetric]
          realloc_def good_def STACK_SIZE_def PTRDIFF_MAX_def)
  qed
qed

lemma push_label_good:
  assumes "good s" "top s < stack_size s"
  shows "\<exists>s'. push_label s = Inr s' \<and> good s' \<and> top s' = Suc (top s) \<and>
    loop s' = (loop s + 1) mod 2 ^ 64 \<and> stack s' = (stack s)[top s := Some (loop s')] \<and>
    stack_size s' = stack_size s \<and> out s' = out s @ loop_head (loop s')"
proof -
  from assms have len: "top s < length (stack s)" and small: "top s + 1 < 2 ^ 64"
    by (simp_all add: good_def sizeof_label_def PTRDIFF_MAX_def)
  from small have wrap: "(top s + 1) mod 2 ^ 64 = Suc (top s)" by simp
  have "None \<notin> set (take (Suc (top s)) ((stack s)[top s := Some l]))" for l
    using assms len by (simp add: good_def take_Suc_conv_app_nth)
  then show ?thesis using assms len wrap
    by (simp add: push_label_def Let_def good_def loop_head_def)
qed

lemma pop_label_good:
  assumes "good s" "0 < top s"
  shows "\<exists>s' l. pop_label s = Inr s' \<and> stack s ! (top s - 1) = Some l \<and> good s' \<and>
    top s' = top s - 1 \<and> loop s' = loop s \<and> stack s' = stack s \<and>
    stack_size s' = stack_size s \<and> out s' = out s @ loop_tail l"
proof -
  from assms have len: "top s \<le> length (stack s)" and small: "top s < 2 ^ 64"
    by (simp_all add: good_def sizeof_label_def PTRDIFF_MAX_def)
  from assms(2) have "top s + SIZE_MAX = (top s - 1) + 2 ^ 64" by (simp add: SIZE_MAX_def)
  with small have wrap: "(top s + SIZE_MAX) mod 2 ^ 64 = top s - 1" by simp
  have "take (top s) (stack s) ! (top s - 1) = stack s ! (top s - 1)"
    using assms(2) by simp
  moreover have "top s - 1 < length (take (top s) (stack s))"
    using assms(2) len by simp
  ultimately have "stack s ! (top s - 1) \<in> set (take (top s) (stack s))"
    by (metis nth_mem)
  with assms obtain l where l: "stack s ! (top s - 1) = Some l"
    by (cases "stack s ! (top s - 1)") (auto simp: good_def)
  have "set (take (top s - 1) (stack s)) \<subseteq> set (take (top s) (stack s))"
    by (simp add: set_take_subset_set_take)
  then have "None \<notin> set (take (top s - 1) (stack s))" using assms by (auto simp: good_def)
  moreover have "top s - 1 < length (stack s)" using assms len by simp
  ultimately show ?thesis using assms wrap l
    by (simp add: pop_label_def Let_def good_def loop_tail_def)
qed

lemma pop_label_empty:
  assumes "good s" "top s = 0"
  shows "pop_label s = Inl Out_of_bounds"
proof -
  from assms have "length (stack s) < 2 ^ 64 - 1"
    by (simp add: good_def sizeof_label_def PTRDIFF_MAX_def)
  then show ?thesis using assms by (simp add: pop_label_def Let_def SIZE_MAX_def)
qed

subsection \<open>One step and the whole scan\<close>

lemma step_open:
  assumes "good s"
  shows "step w (CHR ''['') s = Inl (Out_of_memory_increasing (times_growth_factor (stack_size s))) \<and>
      top s = stack_size s \<and> \<not> allocates w (sizeof_label * times_growth_factor (stack_size s)) \<or>
    (\<exists>s'. step w (CHR ''['') s = Inr s' \<and> good s' \<and> top s' = Suc (top s) \<and>
       loop s' = (loop s + 1) mod 2 ^ 64 \<and> stack s' ! top s = Some (loop s') \<and>
       take (top s) (stack s') = take (top s) (stack s) \<and>
       out s' = out s @ loop_head (loop s') \<and>
       stack_size s' = (if top s = stack_size s then times_growth_factor (stack_size s)
                        else stack_size s))"
proof (cases "top s = stack_size s")
  case True
  from resize_stack_good [OF assms True, of w] show ?thesis
  proof
    assume "resize_stack w s = Inl (Out_of_memory_increasing (times_growth_factor (stack_size s))) \<and>
      \<not> allocates w (sizeof_label * times_growth_factor (stack_size s))"
    then show ?thesis using True by (simp add: step_def)
  next
    assume "allocates w (sizeof_label * times_growth_factor (stack_size s)) \<and>
      (\<exists>s'. resize_stack w s = Inr s' \<and> good s' \<and> top s' < stack_size s' \<and>
       stack_size s' = times_growth_factor (stack_size s) \<and>
       stack s' = stack s @ replicate (stack_size s' - stack_size s) None \<and>
       top s' = top s \<and> out s' = out s \<and> loop s' = loop s)"
    then obtain r where r: "resize_stack w s = Inr r" "good r" "top r < stack_size r"
      "stack_size r = times_growth_factor (stack_size s)"
      "stack r = stack s @ replicate (stack_size r - stack_size s) None"
      "top r = top s" "out r = out s" "loop r = loop s"
      by blast
    from push_label_good [OF r(2) r(3)] obtain s' where s': "push_label r = Inr s'" "good s'"
      "top s' = Suc (top r)" "loop s' = (loop r + 1) mod 2 ^ 64"
      "stack s' = (stack r)[top r := Some (loop s')]" "stack_size s' = stack_size r"
      "out s' = out r @ loop_head (loop s')"
      by blast
    have len: "length (stack s) = top s" using assms True by (simp add: good_def)
    have "top s < length (stack r)" using r by (simp add: good_def)
    then have "stack s' ! top s = Some (loop s')" using s'(5) r(6) by simp
    moreover have "take (top s) (stack s') = take (top s) (stack s)"
      using s'(5) r(5,6) len by simp
    moreover have "step w (CHR ''['') s = Inr s'" using True r(1) s'(1) by (simp add: step_def)
    ultimately show ?thesis using s' r True by simp
  qed
next
  case False
  with assms have lt: "top s < stack_size s" by (simp add: good_def)
  from push_label_good [OF assms lt] obtain s' where s': "push_label s = Inr s'" "good s'"
      "top s' = Suc (top s)" "loop s' = (loop s + 1) mod 2 ^ 64"
      "stack s' = (stack s)[top s := Some (loop s')]" "stack_size s' = stack_size s"
      "out s' = out s @ loop_head (loop s')"
    by blast
  have "top s < length (stack s)" using assms lt by (simp add: good_def)
  then have "stack s' ! top s = Some (loop s')" using s'(5) by simp
  moreover have "step w (CHR ''['') s = Inr s'" using False s'(1) by (simp add: step_def)
  ultimately show ?thesis using s' False by simp
qed

lemma step_close:
  assumes "good s" "0 < top s"
  shows "\<exists>s' l. step w (CHR '']'') s = Inr s' \<and> stack s ! (top s - 1) = Some l \<and> good s' \<and>
    top s' = top s - 1 \<and> loop s' = loop s \<and> stack s' = stack s \<and>
    stack_size s' = stack_size s \<and> out s' = out s @ loop_tail l"
  using pop_label_good [OF assms] by (simp add: step_def)

lemma step_close_empty:
  assumes "good s" "top s = 0"
  shows "step w (CHR '']'') s = Inl Out_of_bounds"
  using pop_label_empty [OF assms] by (simp add: step_def)

lemma step_plain:
  assumes "c \<noteq> CHR ''[''" "c \<noteq> CHR '']''"
  shows "step w c s = Inr (s\<lparr>out := out s @ plain_lines c\<rparr>)"
  using assms by (simp add: step_def plain_lines_def fprintf_def)

lemma good_out [simp]: "good (s\<lparr>out := x\<rparr>) = good s"
  by (simp add: good_def)

lemma step_good: "good s \<Longrightarrow> step w c s = Inr s' \<Longrightarrow> good s'"
proof -
  assume g: "good s" and st: "step w c s = Inr s'"
  consider "c = CHR ''[''" | "c = CHR '']''" "top s = 0" | "c = CHR '']''" "0 < top s"
    | "c \<noteq> CHR ''[''" "c \<noteq> CHR '']''" by blast
  then show ?thesis
  proof cases
    case 1
    then show ?thesis using step_open [OF g, of w] st by auto
  next
    case 2
    then show ?thesis using step_close_empty [OF g, of w] st by simp
  next
    case 3
    then show ?thesis using step_close [OF g, of w] st by auto
  next
    case 4
    then show ?thesis using step_plain [of c w s] st g by auto
  qed
qed

lemma scan_good: "good s \<Longrightarrow> scan w s src = Inr s' \<Longrightarrow> good s'"
  by (induction src arbitrary: s) (auto split: sum.splits dest: step_good)

text \<open>No undefined behaviour and the depth, as long as no bracket closes below \<open>d\<close>.\<close>

lemma scan_safe:
  assumes "good s" "closes d src = Some k" "d \<le> top s"
  shows "(\<exists>n. scan w s src = Inl (Out_of_memory_increasing n)) \<or>
    (\<exists>s'. scan w s src = Inr s' \<and> good s' \<and> top s' + d = top s + k \<and>
       take (top s - d) (stack s') = take (top s - d) (stack s))"
  using assms
proof (induction src arbitrary: s d)
  case Nil
  then show ?case by simp
next
  case (Cons c cs)
  consider "c = CHR ''[''" | "c = CHR '']''" | "c \<noteq> CHR ''[''" "c \<noteq> CHR '']''" by blast
  then show ?case
  proof cases
    case 1
    from step_open [OF Cons.prems(1), of w] show ?thesis
    proof
      assume "step w (CHR ''['') s = Inl (Out_of_memory_increasing (times_growth_factor (stack_size s))) \<and>
        top s = stack_size s \<and> \<not> allocates w (sizeof_label * times_growth_factor (stack_size s))"
      then show ?thesis using 1 by simp
    next
      assume "\<exists>s'. step w (CHR ''['') s = Inr s' \<and> good s' \<and> top s' = Suc (top s) \<and>
       loop s' = (loop s + 1) mod 2 ^ 64 \<and> stack s' ! top s = Some (loop s') \<and>
       take (top s) (stack s') = take (top s) (stack s) \<and>
       out s' = out s @ loop_head (loop s') \<and>
       stack_size s' = (if top s = stack_size s then times_growth_factor (stack_size s)
                        else stack_size s)"
      then obtain s1 where s1: "step w (CHR ''['') s = Inr s1" "good s1" "top s1 = Suc (top s)"
        "take (top s) (stack s1) = take (top s) (stack s)" by blast
      have c: "closes (Suc d) cs = Some k" using Cons.prems(2) 1 by simp
      have d: "Suc d \<le> top s1" using Cons.prems(3) s1(3) by simp
      have tk: "take (top s - d) (stack s1) = take (top s - d) (stack s)"
        using s1(4) by (metis diff_le_self min.absorb1 take_take)
      from Cons.IH [OF s1(2) c d] show ?thesis
        using 1 s1 tk by auto
    qed
  next
    case 2
    with Cons.prems(2) obtain d' where d': "d = Suc d'" "closes d' cs = Some k"
      by (auto split: nat.splits)
    with Cons.prems(3) have pos: "0 < top s" by simp
    from step_close [OF Cons.prems(1) pos, of w] obtain s1 where
      s1: "step w (CHR '']'') s = Inr s1" "good s1" "top s1 = top s - 1" "stack s1 = stack s"
      by blast
    have d: "d' \<le> top s1" using Cons.prems(3) d'(1) s1(3) by simp
    from Cons.IH [OF s1(2) d'(2) d] show ?thesis
      using 2 s1 d' pos by auto
  next
    case 3
    then have c: "closes d cs = Some k" using Cons.prems(2) by simp
    have st: "step w c s = Inr (s\<lparr>out := out s @ plain_lines c\<rparr>)" using 3 by (rule step_plain)
    from Cons.IH [of "s\<lparr>out := out s @ plain_lines c\<rparr>" d] Cons.prems c show ?thesis
      using st by simp
  qed
qed

subsection \<open>Label identifiers in the assembly text\<close>













subsection \<open>Scans that succeed, and scans of the same text\<close>

lemma scan_succeeds:
  assumes "good s" "closes d src = Some k" "d \<le> top s"
    and "\<forall>b. b \<le> PTRDIFF_MAX \<longrightarrow> heap w b"
    and "10 * (top s + length src) \<le> PTRDIFF_MAX"
  shows "\<exists>s'. scan w s src = Inr s' \<and> good s' \<and> top s' + d = top s + k"
  using assms(1-3,5)
proof (induction src arbitrary: s d)
  case Nil
  then show ?case by simp
next
  case (Cons c cs)
  consider "c = CHR ''[''" | "c = CHR '']''" | "c \<noteq> CHR ''[''" "c \<noteq> CHR '']''" by blast
  then show ?case
  proof cases
    case 1
    have "5 * times_growth_factor (top s) \<le> 6 * top s" by (rule times_growth_factor_upper)
    with Cons.prems(4) have "sizeof_label * times_growth_factor (top s) \<le> PTRDIFF_MAX"
      by (simp add: sizeof_label_def)
    with assms(4) have al: "allocates w (sizeof_label * times_growth_factor (top s))"
      by (simp add: allocates_def)
    from step_open [OF Cons.prems(1), of w] al
    obtain s1 where s1: "step w (CHR ''['') s = Inr s1" "good s1" "top s1 = Suc (top s)"
      by auto
    have c: "closes (Suc d) cs = Some k" using Cons.prems(2) 1 by simp
    have d: "Suc d \<le> top s1" using Cons.prems(3) s1(3) by simp
    have b: "10 * (top s1 + length cs) \<le> PTRDIFF_MAX" using Cons.prems(4) s1(3) by simp
    from Cons.IH [OF s1(2) c d b] show ?thesis using 1 s1 by auto
  next
    case 2
    with Cons.prems(2) obtain d' where d': "d = Suc d'" "closes d' cs = Some k"
      by (auto split: nat.splits)
    with Cons.prems(3) have pos: "0 < top s" by simp
    from step_close [OF Cons.prems(1) pos, of w] obtain s1 where
      s1: "step w (CHR '']'') s = Inr s1" "good s1" "top s1 = top s - 1"
      by blast
    have d: "d' \<le> top s1" using Cons.prems(3) d'(1) s1(3) by simp
    have b: "10 * (top s1 + length cs) \<le> PTRDIFF_MAX" using Cons.prems(4) s1(3) by simp
    from Cons.IH [OF s1(2) d'(2) d b] show ?thesis using 2 s1 d' pos by auto
  next
    case 3
    then have c: "closes d cs = Some k" using Cons.prems(2) by simp
    have st: "step w c s = Inr (s\<lparr>out := out s @ plain_lines c\<rparr>)" using 3 by (rule step_plain)
    from Cons.IH [of "s\<lparr>out := out s @ plain_lines c\<rparr>" d] Cons.prems c show ?thesis
      using st by simp
  qed
qed

text \<open>
  Two scans of the same text that both return have written the same lines, whatever
  the two environments granted and whatever lies in the unused part of the stacks.
\<close>

lemma scan_same:
  assumes "good s1" "good s2" "out s1 = out s2" "loop s1 = loop s2" "top s1 = top s2"
    and "take (top s1) (stack s1) = take (top s2) (stack s2)"
    and "scan w1 s1 src = Inr s1'" "scan w2 s2 src = Inr s2'"
  shows "out s1' = out s2' \<and> loop s1' = loop s2' \<and> top s1' = top s2'"
  using assms
proof (induction src arbitrary: s1 s2)
  case Nil
  then show ?case by simp
next
  case (Cons c cs)
  from Cons.prems(7) obtain t1 where t1: "step w1 c s1 = Inr t1" "scan w1 t1 cs = Inr s1'"
    by (auto split: sum.splits)
  from Cons.prems(8) obtain t2 where t2: "step w2 c s2 = Inr t2" "scan w2 t2 cs = Inr s2'"
    by (auto split: sum.splits)
  have g1: "good t1" using Cons.prems(1) t1(1) by (rule step_good)
  have g2: "good t2" using Cons.prems(2) t2(1) by (rule step_good)
  consider "c = CHR ''[''" | "c = CHR '']''" "top s1 = 0" | "c = CHR '']''" "0 < top s1"
    | "c \<noteq> CHR ''[''" "c \<noteq> CHR '']''" by blast
  then show ?case
  proof cases
    case 1
    from step_open [OF Cons.prems(1), of w1] t1(1) 1
    have a: "top t1 = Suc (top s1)" "loop t1 = (loop s1 + 1) mod 2 ^ 64"
      "stack t1 ! top s1 = Some (loop t1)" "take (top s1) (stack t1) = take (top s1) (stack s1)"
      "out t1 = out s1 @ loop_head (loop t1)"
      by auto
    from step_open [OF Cons.prems(2), of w2] t2(1) 1
    have b: "top t2 = Suc (top s2)" "loop t2 = (loop s2 + 1) mod 2 ^ 64"
      "stack t2 ! top s2 = Some (loop t2)" "take (top s2) (stack t2) = take (top s2) (stack s2)"
      "out t2 = out s2 @ loop_head (loop t2)"
      by auto
    have l1: "top s1 < length (stack t1)" using g1 a(1) by (simp add: good_def)
    have l2: "top s2 < length (stack t2)" using g2 b(1) by (simp add: good_def)
    have "take (top t1) (stack t1) = take (top t2) (stack t2)"
      using a b l1 l2 Cons.prems(4,5,6) by (simp add: take_Suc_conv_app_nth)
    moreover have "out t1 = out t2" "loop t1 = loop t2" "top t1 = top t2"
      using a b Cons.prems(3,4,5) by simp_all
    ultimately show ?thesis using Cons.IH [OF g1 g2 _ _ _ _ t1(2) t2(2)] by simp
  next
    case 2
    then show ?thesis using step_close_empty [OF Cons.prems(1), of w1] t1(1) by simp
  next
    case 3
    then have pos2: "0 < top s2" using Cons.prems(5) by simp
    from step_close [OF Cons.prems(1) 3(2), of w1] t1(1) 3(1)
    obtain l1 where a: "stack s1 ! (top s1 - 1) = Some l1" "top t1 = top s1 - 1"
      "loop t1 = loop s1" "stack t1 = stack s1" "out t1 = out s1 @ loop_tail l1"
      by auto
    from step_close [OF Cons.prems(2) pos2, of w2] t2(1) 3(1)
    obtain l2 where b: "stack s2 ! (top s2 - 1) = Some l2" "top t2 = top s2 - 1"
      "loop t2 = loop s2" "stack t2 = stack s2" "out t2 = out s2 @ loop_tail l2"
      by auto
    have "take (top s1) (stack s1) ! (top s1 - 1) = take (top s2) (stack s2) ! (top s2 - 1)"
      using Cons.prems(5,6) by simp
    then have "l1 = l2" using a(1) b(1) 3(2) pos2 by simp
    moreover have "take (top t1) (stack t1) = take (top t2) (stack t2)"
    proof -
      have "take (top s1 - 1) (take (top s1) (stack s1)) =
            take (top s2 - 1) (take (top s2) (stack s2))"
        using Cons.prems(5,6) by simp
      then show ?thesis using a(2,4) b(2,4) by (simp add: min_def)
    qed
    moreover have "top t1 = top t2" "loop t1 = loop t2" using a b Cons.prems(4,5) by simp_all
    ultimately show ?thesis
      using Cons.IH [OF g1 g2 _ _ _ _ t1(2) t2(2)] a(5) b(5) Cons.prems(3) by simp
  next
    case 4
    from step_plain [OF 4, of w1 s1] t1(1) have a: "t1 = s1\<lparr>out := out s1 @ plain_lines c\<rparr>"
      by simp
    from step_plain [OF 4, of w2 s2] t2(1) have b: "t2 = s2\<lparr>out := out s2 @ plain_lines c\<rparr>"
      by simp
    show ?thesis
      using Cons.IH [OF g1 g2 _ _ _ _ t1(2) t2(2)] Cons.prems(3-6) by (simp add: a b)
  qed
qed

subsection \<open>Matching brackets\<close>

lemma scan_matching:
  assumes "good s0" "well_formed body"
    and "scan w s0 (pre @ CHR ''['' # body @ [CHR '']'']) = Inr s2"
  shows "\<exists>s s1 sb. scan w s0 pre = Inr s \<and> step w (CHR ''['') s = Inr s1 \<and>
    scan w s1 body = Inr sb \<and> step w (CHR '']'') sb = Inr s2 \<and>
    top s1 = Suc (top s) \<and> stack s1 ! top s = Some (loop s1) \<and>
    top sb = top s1 \<and> stack sb ! (top sb - 1) = Some (loop s1) \<and>
    top s2 = top s \<and> out s2 = out sb @ loop_tail (loop s1)"
proof -
  from assms(3) obtain s where s: "scan w s0 pre = Inr s"
    and r: "scan w s (CHR ''['' # body @ [CHR '']'']) = Inr s2"
    by (auto simp: scan_append split: sum.splits)
  from r obtain s1 where s1: "step w (CHR ''['') s = Inr s1"
    and r1: "scan w s1 (body @ [CHR '']'']) = Inr s2"
    by (auto split: sum.splits)
  from r1 obtain sb where sb: "scan w s1 body = Inr sb" and r2: "step w (CHR '']'') sb = Inr s2"
    by (auto simp: scan_append split: sum.splits)
  have g: "good s" using assms(1) s by (rule scan_good)
  from step_open [OF g, of w] s1
  have o: "good s1" "top s1 = Suc (top s)" "stack s1 ! top s = Some (loop s1)" by auto
  from assms(2) have c: "closes 0 body = Some 0" by (simp add: well_formed_def)
  from scan_safe [OF o(1) c, of w] sb
  have b: "good sb" "top sb = top s1" "take (top s1) (stack sb) = take (top s1) (stack s1)"
    by auto
  have "stack sb ! top s = take (top s1) (stack sb) ! top s" using o(2) by simp
  also have "\<dots> = stack s1 ! top s" using b(3) o(2) by simp
  finally have same: "stack sb ! (top sb - 1) = Some (loop s1)" using o(2,3) b(2) by simp
  have pos: "0 < top sb" using b(2) o(2) by simp
  from step_close [OF b(1) pos, of w] r2 same
  have "top s2 = top sb - 1" "out s2 = out sb @ loop_tail (loop s1)" by auto
  then show ?thesis using s s1 sb r2 o b same by auto
qed

subsection \<open>Two families of sources\<close>

text \<open>Loops opened one inside the other, up to the initial capacity of the stack.\<close>

lemma scan_opens:
  assumes "n \<le> STACK_SIZE"
  shows "\<exists>s. scan w (start info) (replicate n (CHR ''['')) = Inr s \<and> good s \<and> top s = n \<and>
    stack_size s = STACK_SIZE \<and> loop s = n"
  using assms
proof (induction n)
  case 0
  then show ?case using good_start [of info] by (simp add: start_def)
next
  case (Suc n)
  then obtain s where s: "scan w (start info) (replicate n (CHR ''['')) = Inr s" "good s"
    "top s = n" "stack_size s = STACK_SIZE" "loop s = n"
    by auto
  from Suc.prems s have ne: "top s \<noteq> stack_size s" and small: "(loop s + 1) mod 2 ^ 64 = Suc n"
    by (simp_all add: STACK_SIZE_def)
  from step_open [OF s(2), of w] ne small
  have "\<exists>s'. step w (CHR ''['') s = Inr s' \<and> good s' \<and> top s' = Suc (top s) \<and>
    loop s' = Suc n \<and> stack_size s' = stack_size s"
    by auto
  then obtain s' where s': "step w (CHR ''['') s = Inr s'" "good s'" "top s' = Suc n"
    "loop s' = Suc n" "stack_size s' = STACK_SIZE"
    using s by auto
  have "replicate (Suc n) (CHR ''['') = replicate n (CHR ''['') @ [CHR ''['']"
    by (simp add: replicate_append_same)
  then have "scan w (start info) (replicate (Suc n) (CHR ''['')) = Inr s'"
    using s(1) s'(1) by (simp add: scan_append del: replicate_Suc)
  then show ?case using s' by blast
qed





subsection \<open>The growth factor below \<open>2 ^ 48\<close>\<close>

lemma bitlen_le: "n < 2 ^ k \<Longrightarrow> bitlen n \<le> k"
proof (cases "n = 0")
  case True
  then show ?thesis by (simp add: bitlen.simps)
next
  case False
  assume "n < 2 ^ k"
  moreover from False have "2 ^ (bitlen n - 1) \<le> n" using bitlen_bounds [of n] by simp
  ultimately have "(2::nat) ^ (bitlen n - 1) < 2 ^ k" by linarith
  then have "bitlen n - 1 < k" by simp
  then show ?thesis by simp
qed

text \<open>Rounding does not cross a multiple of \<open>2 ^ 52\<close> from above.\<close>

lemma round53_ge_multiple:
  assumes "y * 2 ^ 52 \<le> m" "m < 2 ^ 105"
  shows "y * 2 ^ 52 \<le> round53 m"
proof (cases "m < 2 ^ 53")
  case True
  then show ?thesis using assms by (simp add: round53_def)
next
  case False
  define s where "s = bitlen m - 53"
  define p :: nat where "p = 2 ^ s"
  have "bitlen m \<le> 105" using assms(2) by (rule bitlen_le)
  then have s: "s \<le> 52" by (simp add: s_def)
  then have "(2::nat) ^ 52 = 2 ^ (52 - s) * p" by (simp add: p_def flip: power_add)
  then have y: "y * 2 ^ 52 = (y * 2 ^ (52 - s)) * p" by simp
  have pos: "0 < p" by (simp add: p_def)
  have "(y * 2 ^ (52 - s)) * p \<le> m" using assms(1) unfolding y .
  then have "y * 2 ^ (52 - s) \<le> m div p"
    using pos less_eq_div_iff_mult_less_eq by blast
  then have "(y * 2 ^ (52 - s)) * p \<le> (m div p) * p" by (rule mult_le_mono1)
  then have le: "y * 2 ^ 52 \<le> (m div p) * p" unfolding y .
  have "round53 m = (if 2 ^ (s - 1) < m mod p \<or> (m mod p = 2 ^ (s - 1) \<and> odd (m div p))
    then (m div p + 1) * p else (m div p) * p)"
    using False by (simp add: round53_def Let_def s_def p_def)
  then have "(m div p) * p \<le> round53 m" by (simp split: if_splits)
  with le show ?thesis by linarith
qed

lemma times_growth_factor_exact:
  assumes "n < 2 ^ 48"
  shows "times_growth_factor n = 11 * n div 10"
proof -
  define k where "k = 11 * n div 10"
  define g where "g = round53 (n * 4953959590107546)"
  have k: "10 * k \<le> 11 * n" "11 * n < 10 * k + 10" unfolding k_def by presburger+
  have a: "round53 n = n" using assms by (simp add: round53_def)
  have lo: "k * 2 ^ 52 \<le> g"
    unfolding g_def using k(1) assms by (intro round53_ge_multiple) simp_all
  have "2 ^ 53 * g \<le> (2 ^ 53 + 1) * (n * 4953959590107546)"
    unfolding g_def by (rule round53_upper_scaled)
  with k(2) assms have hi: "g < (k + 1) * 2 ^ 52" by simp
  from lo have "k \<le> g div 2 ^ 52" by (simp add: less_eq_div_iff_mult_less_eq)
  moreover from hi have "g div 2 ^ 52 < k + 1" by (simp add: div_less_iff_less_mult)
  ultimately have "g div 2 ^ 52 = k" by simp
  then show ?thesis
    by (simp add: times_growth_factor_def STACK_GROWTH_FACTOR_def a g_def k_def)
qed

subsection \<open>Argument processing\<close>

lemma strtol_le:
  assumes "0 \<le> long_max" "strtol long_max arg = (errno, cells, tail)"
  shows "cells \<le> long_max"
  using assms
  by (auto simp: strtol_def Let_def split: if_splits prod.splits)

lemma setup_info_rejects:
  assumes "(CHR ''s'', arg) \<in> set opts"
    and "strtol long_max arg = (errno, cells, tail)"
    and "errno \<or> tail \<noteq> [] \<or> cells \<le> 0"
  shows "fst (setup_info long_max info opts operands) = 0"
  using assms(1)
proof (induction opts arbitrary: info)
  case Nil
  then show ?case by simp
next
  case (Cons o1 opts)
  obtain c a where o1: "o1 = (c, a)" by (cases o1)
  show ?case
  proof (cases "o1 = (CHR ''s'', arg)")
    case True
    then show ?thesis using assms(2,3) by auto
  next
    case False
    with Cons.prems have "(CHR ''s'', arg) \<in> set opts" by simp
    from Cons.IH [OF this] show ?thesis
      by (simp add: o1 split: prod.splits)
  qed
qed

lemma setup_info_cells_size:
  assumes "0 \<le> long_max" "long_max < 2 ^ 32" "1 \<le> cells_size info"
  shows "1 \<le> cells_size (snd (setup_info long_max info opts operands))"
  using assms(3)
proof (induction opts arbitrary: info)
  case Nil
  then show ?case by (simp split: list.splits)
next
  case (Cons o1 opts)
  obtain c a where o1: "o1 = (c, a)" by (cases o1)
  obtain errno cells tail where st: "strtol long_max a = (errno, cells, tail)"
    by (cases "strtol long_max a")
  from strtol_le [OF assms(1) st] assms(2) have small: "cells < 2 ^ 32" by simp
  have pos: "1 \<le> cells_size (info\<lparr>cells_size := nat (cells mod 2 ^ 32)\<rparr>)" if "0 < cells"
    using that small by simp
  show ?case
    using Cons.prems Cons.IH pos by (simp add: o1 st)
qed

subsection \<open>The machine-level run\<close>

text \<open>Where the run is defined, the machine performs it as defined.\<close>

lemma step_machine_defined: "step w c s = Inr s' \<Longrightarrow> step_machine w beyond c s = Inr s'"
  by (auto simp: step_machine_def step_def pop_label_machine_def pop_label_def Let_def
      split: if_splits)

lemma scan_machine_defined: "scan w s src = Inr s' \<Longrightarrow> scan_machine w beyond s src = Inr s'"
  by (induction src arbitrary: s) (auto split: sum.splits simp: step_machine_defined)

lemma compile_machine_defined:
  "compile w info asm_filename src_filename = Inr t \<Longrightarrow>
   compile_machine w beyond info asm_filename src_filename = Inr t"
  by (auto simp: compile_def compile_machine_def scan_machine_defined
      split: option.splits if_splits sum.splits)

text \<open>
  As long as every \<^verbatim>\<open>]\<close> finds a loop open, all reads stay inside the block and the two
  runs are the same, also in the way they fail.
\<close>

lemma scan_machine_inside:
  assumes "good s" "closes d src = Some k" "d \<le> top s"
  shows "scan_machine w beyond s src = scan w s src"
  using assms
proof (induction src arbitrary: s d)
  case Nil
  then show ?case by simp
next
  case (Cons c cs)
  consider "c = CHR ''[''" | "c = CHR '']''" | "c \<noteq> CHR ''[''" "c \<noteq> CHR '']''" by blast
  then show ?case
  proof cases
    case 1
    then have eq: "step_machine w beyond c s = step w c s" by (simp add: step_machine_def)
    have c: "closes (Suc d) cs = Some k" using Cons.prems(2) 1 by simp
    show ?thesis
    proof (cases "step w c s")
      case (Inl e)
      then show ?thesis using eq by simp
    next
      case (Inr s1)
      with step_open [OF Cons.prems(1), of w] 1 have "good s1" "top s1 = Suc (top s)" by auto
      with Cons.IH [OF _ c, of s1] Cons.prems(3) Inr eq show ?thesis by simp
    qed
  next
    case 2
    with Cons.prems(2) obtain d' where d': "d = Suc d'" "closes d' cs = Some k"
      by (auto split: nat.splits)
    with Cons.prems(3) have pos: "0 < top s" by simp
    from step_close [OF Cons.prems(1) pos, of w] obtain s1 where
      s1: "step w (CHR '']'') s = Inr s1" "good s1" "top s1 = top s - 1"
      by blast
    have "step_machine w beyond (CHR '']'') s = Inr s1" using s1(1) by (rule step_machine_defined)
    moreover have "d' \<le> top s1" using Cons.prems(3) d'(1) s1(3) by simp
    ultimately show ?thesis using Cons.IH [OF s1(2) d'(2)] s1(1) 2 by simp
  next
    case 3
    then have c: "closes d cs = Some k" using Cons.prems(2) by simp
    have st: "step w c s = Inr (s\<lparr>out := out s @ plain_lines c\<rparr>)" using 3 by (rule step_plain)
    then have "step_machine w beyond c s = Inr (s\<lparr>out := out s @ plain_lines c\<rparr>)"
      by (rule step_machine_defined)
    with Cons.IH [of "s\<lparr>out := out s @ plain_lines c\<rparr>" d] Cons.prems c st show ?thesis
      by simp
  qed
qed

lemma compile_machine_inside:
  assumes "closes 0 src = Some k" "readable w src_filename = Some src"
  shows "compile_machine w beyond info asm_filename src_filename =
    compile w info asm_filename src_filename"
proof -
  have "scan_machine w beyond (start info) src = scan w (start info) src"
    using good_start assms(1) by (rule scan_machine_inside) simp
  then show ?thesis using assms(2) by (simp add: compile_machine_def compile_def)
qed
section \<open>The claims\<close>

text \<open>
  C1, as the specification states it, fails: the lines written for \<^verbatim>\<open>,\<close> load \<^verbatim>\<open>eax\<close>
  with 3 and \<^verbatim>\<open>ebx\<close> with 0, which is the system call \<^verbatim>\<open>read\<close> on the standard input,
  not \<^verbatim>\<open>write\<close>. The comments in \<^verbatim>\<open>bfc.c\<close> name the two calls the wrong way round; the
  numbers and the descriptors in the code belong together.
\<close>

theorem comma_is_not_write_counterexample:
  "compile (friendly '','') default_info ''a.s'' ''a.bf'' =
     Inr (prologue default_info @ one_byte_call (syscall_number Sys_read) STDIN_FILENO @ epilogue) \<and>
   compile (friendly '','') default_info ''a.s'' ''a.bf'' \<noteq>
     Inr (prologue default_info @ one_byte_call (syscall_number Sys_write) STDOUT_FILENO @ epilogue) \<and>
   compile (friendly ''.'') default_info ''a.s'' ''a.bf'' =
     Inr (prologue default_info @ one_byte_call (syscall_number Sys_write) STDOUT_FILENO @ epilogue)"
  by (simp add: compile_def friendly_def holding_def writable_def plenty_def allocates_def
      STACK_SIZE_def sizeof_label_def PTRDIFF_MAX_def start_def step_def fprintf_def
      one_byte_call_def STDIN_FILENO_def STDOUT_FILENO_def digits.simps)

text \<open>
  C1, amended. For every occurrence of \<^verbatim>\<open>,\<close> in the source the translator writes the
  instructions that make the running program read one byte from its standard input
  into the current cell (system call \<^verbatim>\<open>read\<close>, descriptor 0), and for every occurrence
  of \<^verbatim>\<open>.\<close> those that make it write the byte at the current cell to its standard output
  (system call \<^verbatim>\<open>write\<close>, descriptor 1). The step never fails, and the scan applies it
  at each place the symbol stands.
\<close>

theorem io_symbols:
  "step w (CHR '','') s =
     Inr (s\<lparr>out := out s @ one_byte_call (syscall_number Sys_read) STDIN_FILENO\<rparr>) \<and>
   step w (CHR ''.'') s =
     Inr (s\<lparr>out := out s @ one_byte_call (syscall_number Sys_write) STDOUT_FILENO\<rparr>) \<and>
   scan w s (pre @ CHR '','' # post) =
     (case scan w s pre of
        Inl e \<Rightarrow> Inl e
      | Inr s' \<Rightarrow>
          scan w (s'\<lparr>out := out s' @ one_byte_call (syscall_number Sys_read) STDIN_FILENO\<rparr>) post) \<and>
   scan w s (pre @ CHR ''.'' # post) =
     (case scan w s pre of
        Inl e \<Rightarrow> Inl e
      | Inr s' \<Rightarrow>
          scan w (s'\<lparr>out := out s' @ one_byte_call (syscall_number Sys_write) STDOUT_FILENO\<rparr>) post)"
proof -
  have a: "step w (CHR '','') t =
      Inr (t\<lparr>out := out t @ one_byte_call (syscall_number Sys_read) STDIN_FILENO\<rparr>)" for t
    by (simp add: step_def fprintf_def one_byte_call_def STDIN_FILENO_def digits.simps)
  have b: "step w (CHR ''.'') t =
      Inr (t\<lparr>out := out t @ one_byte_call (syscall_number Sys_write) STDOUT_FILENO\<rparr>)" for t
    by (simp add: step_def fprintf_def one_byte_call_def STDOUT_FILENO_def digits.simps)
  show ?thesis
    by (simp add: a b scan_append split: sum.splits)
qed

text \<open>
  C2, as the specification states it, fails: \<^verbatim>\<open>compile\<close> has no check of the structure.
  The source \<^verbatim>\<open>[\<close> is not well-formed and is translated to the end, the epilogue
  included, with its loop never closed. (For the source \<^verbatim>\<open>]\<close> the decrement of
  \<^verbatim>\<open>top\<close> wraps around and the stack is read outside its block; nothing is reported
  there either.)
\<close>

theorem unmatched_bracket_counterexample:
  "\<not> well_formed ''['' \<and>
   compile (friendly ''['') default_info ''a.s'' ''a.bf'' =
     Inr (prologue default_info @ loop_head 1 @ epilogue) \<and>
   \<not> well_formed '']'' \<and>
   compile (friendly '']'') default_info ''a.s'' ''a.bf'' = Inl Out_of_bounds"
  by (simp add: well_formed_def compile_def friendly_def holding_def writable_def plenty_def
      allocates_def STACK_SIZE_def sizeof_label_def PTRDIFF_MAX_def SIZE_MAX_def start_def
      step_def push_label_def pop_label_def fprintf_def loop_head_def)

text \<open>
  C2, amended. Translation performs no structural check. A source in which every \<^verbatim>\<open>]\<close>
  finds a loop open is translated to the end whether or not its loops are all closed:
  when both files open and memory suffices (for a source of up to \<open>PTRDIFF_MAX div 10\<close>
  bytes), \<^verbatim>\<open>compile\<close> returns normally with the epilogue written, and the \<open>k\<close> loops
  left unclosed remain on the stack, unreported.
\<close>

theorem unclosed_loops_are_not_reported:
  assumes "closes 0 src = Some k"
    and "readable w src_filename = Some src"
    and "creatable w asm_filename"
    and "\<forall>b. b \<le> PTRDIFF_MAX \<longrightarrow> heap w b"
    and "10 * length src \<le> PTRDIFF_MAX"
  shows "\<exists>s. scan w (start info) src = Inr s \<and> top s = k \<and>
    compile w info asm_filename src_filename = Inr (out s @ epilogue)"
proof -
  have t: "top (start info) = 0" by (simp add: start_def)
  from scan_succeeds [OF good_start assms(1) _ assms(4), of info] assms(5) t
  obtain s where s: "scan w (start info) src = Inr s" "top s = k" by auto
  have "allocates w (STACK_SIZE * sizeof_label)"
    using assms(4) by (simp add: allocates_def STACK_SIZE_def sizeof_label_def PTRDIFF_MAX_def)
  then have "compile w info asm_filename src_filename = Inr (out s @ epilogue)"
    using assms(2,3) s(1) by (simp add: compile_def)
  with s show ?thesis by blast
qed

theorem unclosed_loops_are_not_reported_witness:
  "closes 0 ''[[-]'' = Some 1 \<and> \<not> well_formed ''[[-]'' \<and>
   (\<exists>s. scan (friendly ''[[-]'') (start default_info) ''[[-]'' = Inr s \<and> top s = 1 \<and>
      compile (friendly ''[[-]'') default_info ''a.s'' ''a.bf'' = Inr (out s @ epilogue))"
proof -
  have c: "closes 0 ''[[-]'' = Some 1" by simp
  have r: "readable (friendly ''[[-]'') ''a.bf'' = Some ''[[-]''"
    by (simp add: friendly_def holding_def)
  have a: "creatable (friendly ''[[-]'') ''a.s''" by (simp add: friendly_def writable_def)
  have h: "\<forall>b. b \<le> PTRDIFF_MAX \<longrightarrow> heap (friendly ''[[-]'') b"
    by (simp add: friendly_def plenty_def)
  have l: "10 * length ''[[-]'' \<le> PTRDIFF_MAX" by (simp add: PTRDIFF_MAX_def)
  from unclosed_loops_are_not_reported [OF c r a h l, of default_info] c
  show ?thesis by (simp add: well_formed_def)
qed




text \<open>
  C4. While a well-formed source is scanned, the depth of the loop stack (\<^verbatim>\<open>top\<close>) after
  any prefix is the number of \<^verbatim>\<open>[\<close> in the prefix minus the number of \<^verbatim>\<open>]\<close> in it. The
  stack is empty before the first byte and after the last. A step pushes exactly when
  its byte is \<^verbatim>\<open>[\<close> (the new label goes to slot \<^verbatim>\<open>top\<close>, the slots below are kept) and
  pops exactly when it is \<^verbatim>\<open>]\<close> (\<^verbatim>\<open>top\<close> goes down by one, no slot changes); any other
  byte leaves the stack and \<^verbatim>\<open>top\<close> alone. For matching brackets, that is a \<^verbatim>\<open>[\<close> and
  a \<^verbatim>\<open>]\<close> with a well-formed text between them, the label the \<^verbatim>\<open>]\<close> reads from the stack
  and writes into its jump and its end marker is the label the \<^verbatim>\<open>[\<close> pushed.
\<close>

theorem loop_stack_discipline:
  assumes "well_formed src"
    and "scan w (start info) src = Inr s_end"
  shows "top (start info) = 0 \<and> top s_end = 0 \<and>
    (\<forall>pre post. src = pre @ post \<longrightarrow>
       (\<exists>s. scan w (start info) pre = Inr s \<and>
          top s + count_list pre (CHR '']'') = count_list pre (CHR ''[''))) \<and>
    (\<forall>pre c post. src = pre @ c # post \<longrightarrow>
       (\<exists>s s'. scan w (start info) pre = Inr s \<and> step w c s = Inr s' \<and>
          (c = CHR ''['' \<longrightarrow>
             top s' = Suc (top s) \<and> stack s' ! top s = Some (loop s') \<and>
             take (top s) (stack s') = take (top s) (stack s)) \<and>
          (c = CHR '']'' \<longrightarrow> Suc (top s') = top s \<and> stack s' = stack s) \<and>
          (c \<noteq> CHR ''['' \<and> c \<noteq> CHR '']'' \<longrightarrow> top s' = top s \<and> stack s' = stack s))) \<and>
    (\<forall>pre body post. src = pre @ CHR ''['' # body @ CHR '']'' # post \<and> well_formed body \<longrightarrow>
       (\<exists>s s1 sb s2. scan w (start info) pre = Inr s \<and> step w (CHR ''['') s = Inr s1 \<and>
          scan w s1 body = Inr sb \<and> step w (CHR '']'') sb = Inr s2 \<and>
          stack s1 ! top s = Some (loop s1) \<and>
          top sb = top s1 \<and> stack sb ! (top sb - 1) = Some (loop s1) \<and>
          out s2 = out sb @ loop_tail (loop s1)))"
proof -
  from assms(1) have c: "closes 0 src = Some 0" by (simp add: well_formed_def)
  have t0: "top (start info) = 0" by (simp add: start_def)
  have reach: "\<exists>s. scan w (start info) pre = Inr s" if "src = pre @ post" for pre post
    using assms(2) that by (auto simp: scan_append split: sum.splits)
  have depth: "\<exists>s. scan w (start info) pre = Inr s \<and> good s \<and>
      top s + count_list pre (CHR '']'') = count_list pre (CHR ''['') \<and>
      closes 0 pre = Some (top s) \<and> closes (top s) post = Some 0"
    if src: "src = pre @ post" for pre post
  proof -
    from reach [OF src] obtain s where s: "scan w (start info) pre = Inr s" by blast
    from c src obtain k where k: "closes 0 pre = Some k" "closes k post = Some 0"
      by (auto simp: closes_append split: option.splits)
    from scan_safe [OF good_start [of info] k(1), of w] s t0
    have g: "good s" and d: "top s = k" by auto
    from closes_count [OF k(1)] d
    have "top s + count_list pre (CHR '']'') = count_list pre (CHR ''['')" by simp
    with s g d k show ?thesis by blast
  qed
  have last: "top s_end = 0"
    using depth [of src "[]"] assms(2) by auto
  have steps: "\<exists>s s'. scan w (start info) pre = Inr s \<and> step w c s = Inr s' \<and>
          (c = CHR ''['' \<longrightarrow>
             top s' = Suc (top s) \<and> stack s' ! top s = Some (loop s') \<and>
             take (top s) (stack s') = take (top s) (stack s)) \<and>
          (c = CHR '']'' \<longrightarrow> Suc (top s') = top s \<and> stack s' = stack s) \<and>
          (c \<noteq> CHR ''['' \<and> c \<noteq> CHR '']'' \<longrightarrow> top s' = top s \<and> stack s' = stack s)"
    if src: "src = pre @ c # post" for pre c post
  proof -
    from depth [OF src] obtain s where s: "scan w (start info) pre = Inr s" "good s"
      "closes (top s) (c # post) = Some 0"
      by blast
    from src have "src = (pre @ [c]) @ post" by simp
    from reach [OF this] s(1) obtain s' where s': "step w c s = Inr s'"
      by (auto simp: scan_append split: sum.splits)
    have a: "top s' = Suc (top s) \<and> stack s' ! top s = Some (loop s') \<and>
        take (top s) (stack s') = take (top s) (stack s)" if "c = CHR ''[''"
      using step_open [OF s(2), of w] s' that by auto
    have pos: "0 < top s" if "c = CHR '']''"
      using that s(3) by (cases "top s") auto
    have b: "Suc (top s') = top s \<and> stack s' = stack s" if "c = CHR '']''"
      using step_close [OF s(2) pos [OF that], of w] s' that pos [OF that] by auto
    have d: "top s' = top s \<and> stack s' = stack s" if "c \<noteq> CHR ''[''" "c \<noteq> CHR '']''"
      using step_plain [OF that, of w s] s' by auto
    from s(1) s' a b d show ?thesis by blast
  qed
  have match: "\<exists>s s1 sb s2. scan w (start info) pre = Inr s \<and> step w (CHR ''['') s = Inr s1 \<and>
          scan w s1 body = Inr sb \<and> step w (CHR '']'') sb = Inr s2 \<and>
          stack s1 ! top s = Some (loop s1) \<and>
          top sb = top s1 \<and> stack sb ! (top sb - 1) = Some (loop s1) \<and>
          out s2 = out sb @ loop_tail (loop s1)"
    if src: "src = pre @ CHR ''['' # body @ CHR '']'' # post" and wf: "well_formed body"
    for pre body post
  proof -
    from src have "src = (pre @ CHR ''['' # body @ [CHR '']'']) @ post" by simp
    from reach [OF this] obtain s2
      where "scan w (start info) (pre @ CHR ''['' # body @ [CHR '']'']) = Inr s2"
      by blast
    from scan_matching [OF good_start wf this] show ?thesis by blast
  qed
  show ?thesis using t0 last depth steps match by blast
qed

theorem loop_stack_discipline_witness:
  "well_formed ''[[-]+]'' \<and> well_formed ''-'' \<and>
   (\<exists>s_end s s1 sb s2.
      scan (friendly ''[[-]+]'') (start default_info) ''[[-]+]'' = Inr s_end \<and> top s_end = 0 \<and>
      scan (friendly ''[[-]+]'') (start default_info) ''['' = Inr s \<and> top s = 1 \<and>
      step (friendly ''[[-]+]'') (CHR ''['') s = Inr s1 \<and> top s1 = 2 \<and>
      stack s1 ! 1 = Some 2 \<and>
      scan (friendly ''[[-]+]'') s1 ''-'' = Inr sb \<and> top sb = 2 \<and>
      step (friendly ''[[-]+]'') (CHR '']'') sb = Inr s2 \<and> top s2 = 1 \<and>
      out s2 = out sb @ loop_tail 2)"
proof -
  have wf: "well_formed ''[[-]+]''" and wfb: "well_formed ''-''"
    by (simp_all add: well_formed_def)
  obtain s_end where e: "scan (friendly ''[[-]+]'') (start default_info) ''[[-]+]'' = Inr s_end"
    by (simp add: STACK_SIZE_def SIZE_MAX_def start_def step_def push_label_def pop_label_def
        fprintf_def)
  have split: "''[[-]+]'' = ''['' @ CHR ''['' # ''-'' @ CHR '']'' # ''+]''" by simp
  note all = loop_stack_discipline [OF wf e]
  from all have "top s_end = 0" by blast
  moreover from all [THEN conjunct2, THEN conjunct2, THEN conjunct2, THEN conjunct2, rule_format,
      of "''[''" "''-''" "''+]''"] split wfb
  obtain s s1 sb s2 where m: "scan (friendly ''[[-]+]'') (start default_info) ''['' = Inr s"
    "step (friendly ''[[-]+]'') (CHR ''['') s = Inr s1"
    "scan (friendly ''[[-]+]'') s1 ''-'' = Inr sb"
    "step (friendly ''[[-]+]'') (CHR '']'') sb = Inr s2"
    "stack s1 ! top s = Some (loop s1)" "top sb = top s1"
    "stack sb ! (top sb - 1) = Some (loop s1)" "out s2 = out sb @ loop_tail (loop s1)"
    by blast
  moreover from m(1) have s: "top s = 1" "loop s = 1" "stack_size s = 1024"
    "length (stack s) = 1024"
    by (auto simp: STACK_SIZE_def start_def step_def push_label_def fprintf_def)
  moreover from m(2) s have s1: "top s1 = 2" "loop s1 = 2"
    by (auto simp: step_def push_label_def fprintf_def)
  moreover from m(4) m(6) s1 have "top s2 = 1"
    by (auto simp: step_def pop_label_def SIZE_MAX_def fprintf_def Let_def
        split: if_splits option.splits)
  ultimately show ?thesis using wf wfb e by auto
qed

text \<open>
  C5. Let the scan have arrived with a full stack (\<^verbatim>\<open>top == stack_size\<close>) at a \<^verbatim>\<open>[\<close>. The
  capacity is at least the initial 1024, and the new capacity is the old one times the
  growth factor 1.1, computed in \<^verbatim>\<open>double\<close> and truncated: it is at least the old
  capacity plus one, at most six fifths of it, and below \<open>2 ^ 48\<close> it is exactly
  \<open>11 * stack_size div 10\<close>. If the allocator grants the new block, the step succeeds,
  the stack has the new capacity, the entries below \<^verbatim>\<open>top\<close> are what they were, in the
  same order, and the new label sits on top of them. If it does not, the step ends in
  \<^verbatim>\<open>error\<close>, and so do the scan and \<^verbatim>\<open>compile\<close> for every source that continues this
  way.
\<close>

theorem stack_growth:
  assumes "scan w (start info) pre = Inr s"
    and "top s = stack_size s"
  shows "STACK_SIZE \<le> stack_size s \<and>
    stack_size s + 1 \<le> times_growth_factor (stack_size s) \<and>
    5 * times_growth_factor (stack_size s) \<le> 6 * stack_size s \<and>
    (stack_size s < 2 ^ 48 \<longrightarrow> times_growth_factor (stack_size s) = 11 * stack_size s div 10) \<and>
    (allocates w (sizeof_label * times_growth_factor (stack_size s)) \<longrightarrow>
       (\<exists>s'. step w (CHR ''['') s = Inr s' \<and>
          stack_size s' = times_growth_factor (stack_size s) \<and>
          length (stack s') = stack_size s' \<and>
          take (top s) (stack s') = take (top s) (stack s) \<and>
          stack s' ! top s = Some (loop s') \<and> top s' = Suc (top s))) \<and>
    (\<not> allocates w (sizeof_label * times_growth_factor (stack_size s)) \<longrightarrow>
       step w (CHR ''['') s = Inl (Out_of_memory_increasing (times_growth_factor (stack_size s))) \<and>
       (\<forall>post. scan w (start info) (pre @ CHR ''['' # post) =
          Inl (Out_of_memory_increasing (times_growth_factor (stack_size s)))) \<and>
       (\<forall>post asm_filename src_filename.
          readable w src_filename = Some (pre @ CHR ''['' # post) \<and> creatable w asm_filename \<and>
          allocates w (STACK_SIZE * sizeof_label) \<longrightarrow>
          compile w info asm_filename src_filename =
            Inl (Out_of_memory_increasing (times_growth_factor (stack_size s)))))"
proof -
  have g: "good s" using good_start assms(1) by (rule scan_good)
  then have n: "STACK_SIZE \<le> stack_size s" by (simp add: good_def)
  then have "10 \<le> stack_size s" by (simp add: STACK_SIZE_def)
  then have lo: "stack_size s + 1 \<le> times_growth_factor (stack_size s)"
    by (rule times_growth_factor_progress)
  have hi: "5 * times_growth_factor (stack_size s) \<le> 6 * stack_size s"
    by (rule times_growth_factor_upper)
  have ex: "times_growth_factor (stack_size s) = 11 * stack_size s div 10"
    if "stack_size s < 2 ^ 48"
    using that by (rule times_growth_factor_exact)
  have ok: "\<exists>s'. step w (CHR ''['') s = Inr s' \<and>
          stack_size s' = times_growth_factor (stack_size s) \<and>
          length (stack s') = stack_size s' \<and>
          take (top s) (stack s') = take (top s) (stack s) \<and>
          stack s' ! top s = Some (loop s') \<and> top s' = Suc (top s)"
    if "allocates w (sizeof_label * times_growth_factor (stack_size s))"
  proof -
    from step_open [OF g, of w] that assms(2)
    obtain s' where s': "step w (CHR ''['') s = Inr s'" "good s'"
      "stack_size s' = times_growth_factor (stack_size s)"
      "take (top s) (stack s') = take (top s) (stack s)"
      "stack s' ! top s = Some (loop s')" "top s' = Suc (top s)"
      by auto
    from s'(2) have "length (stack s') = stack_size s'" by (simp add: good_def)
    with s' show ?thesis by blast
  qed
  have no: "step w (CHR ''['') s = Inl (Out_of_memory_increasing (times_growth_factor (stack_size s)))"
    if "\<not> allocates w (sizeof_label * times_growth_factor (stack_size s))"
  proof -
    from resize_stack_good [OF g assms(2), of w] that
    have "resize_stack w s = Inl (Out_of_memory_increasing (times_growth_factor (stack_size s)))"
      by auto
    then show ?thesis using assms(2) by (simp add: step_def)
  qed
  have sc: "scan w (start info) (pre @ CHR ''['' # post) =
      Inl (Out_of_memory_increasing (times_growth_factor (stack_size s)))"
    if "\<not> allocates w (sizeof_label * times_growth_factor (stack_size s))" for post
    using no [OF that] assms(1) by (simp add: scan_append)
  have co: "compile w info asm_filename src_filename =
      Inl (Out_of_memory_increasing (times_growth_factor (stack_size s)))"
    if "\<not> allocates w (sizeof_label * times_growth_factor (stack_size s))"
      "readable w src_filename = Some (pre @ CHR ''['' # post)" "creatable w asm_filename"
      "allocates w (STACK_SIZE * sizeof_label)"
    for post asm_filename src_filename
    using sc [OF that(1), of post] that(2-4) by (simp add: compile_def)
  show ?thesis using n lo hi ex ok no sc co by blast
qed

theorem stack_growth_witness:
  "\<exists>s. scan (friendly deep_nest) (start default_info) (replicate STACK_SIZE (CHR ''['')) = Inr s \<and>
     top s = stack_size s \<and> stack_size s = 1024 \<and>
     times_growth_factor (stack_size s) = 1126 \<and>
     allocates (friendly deep_nest) (sizeof_label * times_growth_factor (stack_size s)) \<and>
     (\<exists>s'. step (friendly deep_nest) (CHR ''['') s = Inr s' \<and> stack_size s' = 1126 \<and>
        length (stack s') = 1126 \<and> take (top s) (stack s') = take (top s) (stack s) \<and>
        top s' = 1025)"
proof -
  from scan_opens [of STACK_SIZE "friendly deep_nest" default_info]
  obtain s where s: "scan (friendly deep_nest) (start default_info)
      (replicate STACK_SIZE (CHR ''['')) = Inr s"
    "top s = STACK_SIZE" "stack_size s = STACK_SIZE"
    by auto
  have full: "top s = stack_size s" using s by simp
  have v: "stack_size s = 1024" using s by (simp add: STACK_SIZE_def)
  have t: "times_growth_factor (stack_size s) = 1126"
    unfolding v
    by (simp add: times_growth_factor_def STACK_GROWTH_FACTOR_def round53_def bitlen.simps Let_def)
  have a: "allocates (friendly deep_nest) (sizeof_label * times_growth_factor (stack_size s))"
    unfolding t by (simp add: friendly_def plenty_def allocates_def sizeof_label_def PTRDIFF_MAX_def)
  from stack_growth [OF s(1) full] a
  obtain s' where "step (friendly deep_nest) (CHR ''['') s = Inr s'"
    "stack_size s' = times_growth_factor (stack_size s)" "length (stack s') = stack_size s'"
    "take (top s) (stack s') = take (top s) (stack s)" "top s' = Suc (top s)"
    by blast
  then show ?thesis using s(1) full v t a by auto
qed

text \<open>
  C6. The second half of the claim fails where \<^verbatim>\<open>long\<close> has 64 bits: the argument
  \<^verbatim>\<open>4294967296\<close> is positive and read to its end, so it is accepted, but the assignment
  to the \<^verbatim>\<open>unsigned int\<close> field keeps its low 32 bits, which are 0. Translation then runs
  with a cell count of 0 and reserves no cells.
\<close>

theorem size_argument_truncated:
  "strtol LONG_MAX_64 ''4294967296'' = (False, 4294967296, []) \<and>
   setup_info LONG_MAX_64 default_info [(CHR ''s'', ''4294967296'')] [''a.bf''] =
     (1, default_info\<lparr>cells_size := 0, in_filename := Some ''a.bf''\<rparr>) \<and>
   main LONG_MAX_64 (friendly ''+'') [(CHR ''s'', ''4294967296'')] [''a.bf''] =
     Inr ([''.intel_syntax noprefix'' @ [NL],
           ''.section .bss'' @ [NL],
           TAB # ''.lcomm cells, 0'' @ [NL],
           ''.section .text'' @ [NL],
           ''.globl _start'' @ [NL],
           ''_start:'' @ [NL],
           TAB # ''mov edi, OFFSET cells'' @ [NL],
           TAB # ''inc DWORD PTR [edi]'' @ [NL]] @ epilogue)"
  by (simp add: strtol_def isspace_def is_digit_def digit_value_def Let_def LONG_MAX_64_def
      main_def replace_extension_def compile_def friendly_def holding_def writable_def plenty_def
      allocates_def STACK_SIZE_def sizeof_label_def PTRDIFF_MAX_def start_def prologue_def
      step_def fprintf_def print_u_def digits.simps)

text \<open>
  The first half of C6 holds on every platform: when \<^verbatim>\<open>strtol\<close> reports a
  range error for the argument of an option \<^verbatim>\<open>-s\<close>, leaves characters unread, or yields
  a value that is not positive, \<^verbatim>\<open>setup_info\<close> returns 0 and \<^verbatim>\<open>main\<close> ends in
  \<^verbatim>\<open>error\<close> before \<^verbatim>\<open>compile\<close> is called.
\<close>

theorem size_argument_rejected:
  assumes "(CHR ''s'', arg) \<in> set opts"
    and "strtol long_max arg = (errno, cells, tail)"
    and "errno \<or> tail \<noteq> [] \<or> cells \<le> 0"
  shows "fst (setup_info long_max info opts operands) = 0 \<and>
    main long_max w opts operands = Inl Invalid_arguments"
proof -
  have z: "fst (setup_info long_max i opts operands) = 0" for i
    using assms by (rule setup_info_rejects)
  obtain ok info' where r: "setup_info long_max
      \<lparr>in_filename = None, out_filename = None, target = LINK, cells_size = 4096\<rparr>
      opts operands = (ok, info')"
    by (cases "setup_info long_max
      \<lparr>in_filename = None, out_filename = None, target = LINK, cells_size = 4096\<rparr>
      opts operands")
  with z [of "\<lparr>in_filename = None, out_filename = None, target = LINK, cells_size = 4096\<rparr>"]
  have "ok = 0" by simp
  with r z show ?thesis by (simp add: main_def)
qed

theorem size_argument_rejected_witness:
  "strtol LONG_MAX_64 ''12abc'' = (False, 12, ''abc'') \<and>
   strtol LONG_MAX_64 ''-5'' = (False, - 5, []) \<and>
   strtol LONG_MAX_64 ''0'' = (False, 0, []) \<and>
   main LONG_MAX_64 (friendly ''+'') [(CHR ''S'', []), (CHR ''s'', ''12abc'')] [''a.bf''] =
     Inl Invalid_arguments \<and>
   main LONG_MAX_64 (friendly ''+'') [(CHR ''s'', ''-5'')] [''a.bf''] = Inl Invalid_arguments \<and>
   main LONG_MAX_64 (friendly ''+'') [(CHR ''s'', ''0'')] [''a.bf''] = Inl Invalid_arguments"
proof -
  have a: "strtol LONG_MAX_64 ''12abc'' = (False, 12, ''abc'')"
    and b: "strtol LONG_MAX_64 ''-5'' = (False, - 5, [])"
    and c: "strtol LONG_MAX_64 ''0'' = (False, 0, [])"
    by (simp_all add: strtol_def isspace_def is_digit_def digit_value_def Let_def LONG_MAX_64_def)
  from size_argument_rejected [OF _ a, of "[(CHR ''S'', []), (CHR ''s'', ''12abc'')]"]
    size_argument_rejected [OF _ b, of "[(CHR ''s'', ''-5'')]"]
    size_argument_rejected [OF _ c, of "[(CHR ''s'', ''0'')]"]
  show ?thesis using a b c by simp
qed

text \<open>
  The second half of C6 holds where \<^verbatim>\<open>long\<close> is no wider than \<^verbatim>\<open>unsigned int\<close>:
  an accepted size is then stored unchanged, and the cell count stays at least 1.
\<close>

theorem cells_size_positive_narrow_long:
  assumes "0 \<le> long_max" and "long_max < 2 ^ 32" and "1 \<le> cells_size info"
  shows "1 \<le> cells_size (snd (setup_info long_max info opts operands))"
  using assms by (rule setup_info_cells_size)

theorem cells_size_positive_narrow_long_witness:
  "(0::int) \<le> LONG_MAX_32 \<and> LONG_MAX_32 < 2 ^ 32 \<and> 1 \<le> cells_size default_info \<and>
   1 \<le> cells_size (snd (setup_info LONG_MAX_32 default_info [(CHR ''s'', ''30000'')] [''a.bf''])) \<and>
   setup_info LONG_MAX_32 default_info [(CHR ''s'', ''30000'')] [''a.bf''] =
     (1, default_info\<lparr>cells_size := 30000, in_filename := Some ''a.bf''\<rparr>) \<and>
   fst (setup_info LONG_MAX_32 default_info [(CHR ''s'', ''4294967296'')] [''a.bf'']) = 0"
proof -
  have a: "(0::int) \<le> LONG_MAX_32" "LONG_MAX_32 < 2 ^ 32" "1 \<le> cells_size default_info"
    by (simp_all add: LONG_MAX_32_def default_info_def)
  have b: "setup_info LONG_MAX_32 default_info [(CHR ''s'', ''30000'')] [''a.bf''] =
     (1, default_info\<lparr>cells_size := 30000, in_filename := Some ''a.bf''\<rparr>)"
    "fst (setup_info LONG_MAX_32 default_info [(CHR ''s'', ''4294967296'')] [''a.bf'']) = 0"
    by (simp_all add: strtol_def isspace_def is_digit_def digit_value_def Let_def LONG_MAX_32_def)
  from cells_size_positive_narrow_long [OF a, of "[(CHR ''s'', ''30000'')]" "[''a.bf'']"] a b
  show ?thesis by simp
qed

text \<open>
  C7. For the input \<^verbatim>\<open>[-]\<close> the text written is the prologue, the seven lines below
  and the epilogue: one pair of labels (\<^verbatim>\<open>.LB1\<close>, \<^verbatim>\<open>.LE1\<close>); the check that jumps to
  the end label when the cell is zero (\<^verbatim>\<open>cmp\<close>, \<^verbatim>\<open>jz .LE1\<close>) comes before the begin
  marker \<^verbatim>\<open>.LB1:\<close>; the one decrement lies between the begin marker and the end
  marker; the check that jumps back when the cell is not zero (\<^verbatim>\<open>cmp\<close>,
  \<^verbatim>\<open>jnz .LB1\<close>) comes before the end marker \<^verbatim>\<open>.LE1:\<close>. It holds whenever both files
  open and the first allocation succeeds.
\<close>

theorem compile_loop_example:
  assumes "readable w src_filename = Some ''[-]''"
    and "creatable w asm_filename"
    and "allocates w (STACK_SIZE * sizeof_label)"
  shows "compile w info asm_filename src_filename =
    Inr (prologue info @
      [TAB # ''cmp DWORD PTR [edi], 0'' @ [NL],
       TAB # ''jz .LE1'' @ [NL],
       ''.LB1:'' @ [NL],
       TAB # ''dec DWORD PTR [edi]'' @ [NL],
       TAB # ''cmp DWORD PTR [edi], 0'' @ [NL],
       TAB # ''jnz .LB1'' @ [NL],
       ''.LE1:'' @ [NL]] @
      epilogue)"
  using assms
  by (simp add: compile_def start_def step_def push_label_def pop_label_def fprintf_def
      print_u_def digits.simps STACK_SIZE_def SIZE_MAX_def)

theorem compile_loop_example_witness:
  "readable (friendly ''[-]'') ''a.bf'' = Some ''[-]'' \<and>
   creatable (friendly ''[-]'') ''a.s'' \<and>
   allocates (friendly ''[-]'') (STACK_SIZE * sizeof_label) \<and>
   compile (friendly ''[-]'') default_info ''a.s'' ''a.bf'' =
     Inr (prologue default_info @
       [TAB # ''cmp DWORD PTR [edi], 0'' @ [NL],
        TAB # ''jz .LE1'' @ [NL],
        ''.LB1:'' @ [NL],
        TAB # ''dec DWORD PTR [edi]'' @ [NL],
        TAB # ''cmp DWORD PTR [edi], 0'' @ [NL],
        TAB # ''jnz .LB1'' @ [NL],
        ''.LE1:'' @ [NL]] @
       epilogue)"
proof -
  have r: "readable (friendly ''[-]'') ''a.bf'' = Some ''[-]''"
    by (simp add: friendly_def holding_def)
  have c: "creatable (friendly ''[-]'') ''a.s''"
    by (simp add: friendly_def writable_def)
  have a: "allocates (friendly ''[-]'') (STACK_SIZE * sizeof_label)"
    by (simp add: friendly_def plenty_def allocates_def STACK_SIZE_def sizeof_label_def
        PTRDIFF_MAX_def)
  from compile_loop_example [OF r c a, of default_info] r c a show ?thesis by simp
qed

text \<open>
  C8. A byte that is not one of the eight symbols leaves the locals of \<^verbatim>\<open>compile\<close> as
  they are: no line is written, and the label counter, the stack and its top stay the
  same. So a source without any symbol is translated to the prologue followed by the
  epilogue, whenever both files open and the first allocation succeeds.
\<close>

theorem unrecognised_bytes_are_skipped:
  "(\<forall>c s. \<not> symbol c \<longrightarrow> step w c s = Inr s) \<and>
   ((\<forall>c \<in> set src. \<not> symbol c) \<and> readable w src_filename = Some src \<and>
    creatable w asm_filename \<and> allocates w (STACK_SIZE * sizeof_label) \<longrightarrow>
    compile w info asm_filename src_filename = Inr (prologue info @ epilogue))"
proof -
  have skip: "step w c s = Inr s" if "\<not> symbol c" for c s
    using that by (simp add: symbol_def step_def)
  have all: "scan w s src = Inr s" if "\<forall>c \<in> set src. \<not> symbol c" for s
    using that by (induction src) (simp_all add: skip)
  show ?thesis using skip all by (simp add: compile_def start_def)
qed

theorem unrecognised_bytes_are_skipped_witness:
  "\<not> symbol (CHR ''a'') \<and>
   step (friendly ''a comment'') (CHR ''a'') (start default_info) = Inr (start default_info) \<and>
   compile (friendly ''a comment'') default_info ''a.s'' ''a.bf'' =
     Inr (prologue default_info @ epilogue)"
proof -
  have a: "\<not> symbol (CHR ''a'')" by (simp add: symbol_def)
  have b: "\<forall>c \<in> set ''a comment''. \<not> symbol c" by (simp add: symbol_def)
  have c: "readable (friendly ''a comment'') ''a.bf'' = Some ''a comment''"
    "creatable (friendly ''a comment'') ''a.s''"
    "allocates (friendly ''a comment'') (STACK_SIZE * sizeof_label)"
    by (simp_all add: friendly_def holding_def writable_def plenty_def allocates_def
        STACK_SIZE_def sizeof_label_def PTRDIFF_MAX_def)
  from unrecognised_bytes_are_skipped
    [of "friendly ''a comment''" "''a comment''" "''a.bf''" "''a.s''" default_info]
  show ?thesis using a b c by blast
qed

text \<open>
  C9, as the specification states it, fails. For the source \<^verbatim>\<open>]\<close> the label printed is
  the word the memory holds just below the stack block, so two translations of this
  source with the same cell-array size write different texts when that word differs:
  \<^verbatim>\<open>jnz .LB8209\<close> and \<^verbatim>\<open>.LE8209:\<close> in one run, \<^verbatim>\<open>jnz .LB0\<close> and \<^verbatim>\<open>.LE0:\<close> in the
  other. Both runs return normally.
\<close>

theorem stray_bracket_counterexample:
  "compile_machine (friendly '']'') chunk_sizes default_info ''a.s'' ''a.bf'' =
     Inr (prologue default_info @
       [TAB # ''cmp DWORD PTR [edi], 0'' @ [NL],
        TAB # ''jnz .LB8209'' @ [NL],
        ''.LE8209:'' @ [NL]] @
       epilogue) \<and>
   compile_machine (friendly '']'') zeroes default_info ''a.s'' ''a.bf'' =
     Inr (prologue default_info @
       [TAB # ''cmp DWORD PTR [edi], 0'' @ [NL],
        TAB # ''jnz .LB0'' @ [NL],
        ''.LE0:'' @ [NL]] @
       epilogue) \<and>
   compile_machine (friendly '']'') chunk_sizes default_info ''a.s'' ''a.bf'' \<noteq>
   compile_machine (friendly '']'') zeroes default_info ''a.s'' ''a.bf''"
  by (simp add: compile_machine_def step_machine_def pop_label_machine_def friendly_def
      holding_def writable_def plenty_def allocates_def STACK_SIZE_def sizeof_label_def
      PTRDIFF_MAX_def SIZE_MAX_def start_def fprintf_def chunk_sizes_def zeroes_def
      print_u_def digits.simps)

text \<open>
  C9, amended. For a source in which every \<^verbatim>\<open>]\<close> finds a loop open, translation is
  deterministic: two runs on this source with the same cell-array size that both
  return have written the same text, byte for byte, also when they run in different
  environments (other file names, another allocator, other contents of the memory
  around the stack) and with different values in the other fields of \<^verbatim>\<open>info\<close>. All
  reads of such a run stay inside the stack block, in slots the run has written: it is
  the run ISO C defines, and \<open>compile\<close> returns the same text.
\<close>

theorem translation_is_deterministic:
  assumes "closes 0 src = Some k"
    and "readable w1 src1 = Some src" and "readable w2 src2 = Some src"
    and "cells_size info1 = cells_size info2"
    and "compile_machine w1 beyond1 info1 asm1 src1 = Inr text1"
    and "compile_machine w2 beyond2 info2 asm2 src2 = Inr text2"
  shows "text1 = text2 \<and> concat text1 = concat text2 \<and>
    compile w1 info1 asm1 src1 = Inr text1 \<and> compile w2 info2 asm2 src2 = Inr text2"
proof -
  have c1: "compile w1 info1 asm1 src1 = Inr text1"
    using compile_machine_inside [OF assms(1,2), of beyond1 info1 asm1] assms(5) by simp
  have c2: "compile w2 info2 asm2 src2 = Inr text2"
    using compile_machine_inside [OF assms(1,3), of beyond2 info2 asm2] assms(6) by simp
  from assms(2) c1 obtain s1 where s1: "scan w1 (start info1) src = Inr s1"
    "text1 = out s1 @ epilogue"
    by (auto simp: compile_def split: if_splits sum.splits)
  from assms(3) c2 obtain s2 where s2: "scan w2 (start info2) src = Inr s2"
    "text2 = out s2 @ epilogue"
    by (auto simp: compile_def split: if_splits sum.splits)
  have same: "out (start info1) = out (start info2)" "loop (start info1) = loop (start info2)"
    "top (start info1) = top (start info2)"
    "take (top (start info1)) (stack (start info1)) = take (top (start info2)) (stack (start info2))"
    using assms(4) by (simp_all add: start_def prologue_def)
  from scan_same [OF good_start good_start same s1(1) s2(1)]
  have "out s1 = out s2" by simp
  with s1(2) s2(2) c1 c2 show ?thesis by simp
qed

theorem translation_is_deterministic_witness:
  "closes 0 ''+[-].[['' = Some 2 \<and>
   readable (friendly ''+[-].[['') ''a.bf'' = Some ''+[-].[['' \<and>
   readable \<lparr>readable = holding ''+[-].[['', creatable = writable, heap = (\<lambda>n. n < 10000)\<rparr>
     ''b.bf'' = Some ''+[-].[['' \<and>
   compile_machine (friendly ''+[-].[['') chunk_sizes default_info ''a.s'' ''a.bf'' =
   compile_machine \<lparr>readable = holding ''+[-].[['', creatable = writable, heap = (\<lambda>n. n < 10000)\<rparr>
     zeroes (default_info\<lparr>target := COMPILE\<rparr>) ''b.s'' ''b.bf'' \<and>
   \<not> isl (compile_machine (friendly ''+[-].[['') chunk_sizes default_info ''a.s'' ''a.bf'')"
proof -
  define w2 where
    "w2 = \<lparr>readable = holding ''+[-].[['', creatable = writable, heap = (\<lambda>n. n < 10000)\<rparr>"
  have c: "closes 0 ''+[-].[['' = Some 2" by simp
  have r1: "readable (friendly ''+[-].[['') ''a.bf'' = Some ''+[-].[[''"
    by (simp add: friendly_def holding_def)
  have r2: "readable w2 ''b.bf'' = Some ''+[-].[[''" by (simp add: w2_def holding_def)
  have cs: "cells_size default_info = cells_size (default_info\<lparr>target := COMPILE\<rparr>)" by simp
  obtain t1 where t1:
    "compile_machine (friendly ''+[-].[['') chunk_sizes default_info ''a.s'' ''a.bf'' = Inr t1"
    by (simp add: compile_machine_def step_machine_def pop_label_machine_def friendly_def
        holding_def writable_def plenty_def allocates_def STACK_SIZE_def sizeof_label_def
        PTRDIFF_MAX_def SIZE_MAX_def start_def step_def push_label_def pop_label_def fprintf_def)
  obtain t2 where t2:
    "compile_machine w2 zeroes (default_info\<lparr>target := COMPILE\<rparr>) ''b.s'' ''b.bf'' = Inr t2"
    by (simp add: compile_machine_def step_machine_def pop_label_machine_def w2_def
        holding_def writable_def allocates_def STACK_SIZE_def sizeof_label_def
        PTRDIFF_MAX_def SIZE_MAX_def start_def step_def push_label_def pop_label_def fprintf_def)
  from translation_is_deterministic [OF c r1 r2 cs t1 t2] have "t1 = t2" by simp
  then show ?thesis using c r1 r2 t1 t2 unfolding w2_def by simp
qed

text \<open>
  C10. For a well-formed source no access to the loop stack leaves its block. Wherever
  the scan has arrived, \<^verbatim>\<open>top\<close> is at most the capacity, which is the room the block
  has; a \<^verbatim>\<open>]\<close> finds \<^verbatim>\<open>top\<close> above zero and a written slot at \<^verbatim>\<open>top - 1\<close>; a \<^verbatim>\<open>[\<close>
  writes at an index below the capacity it has after growing, if it grew. No step and
  no run of \<^verbatim>\<open>compile\<close> ends in undefined behaviour: a run that does not return has
  ended in a call of \<^verbatim>\<open>error\<close>.
\<close>

theorem stack_accesses_in_bounds:
  assumes "well_formed src"
    and "readable w src_filename = Some src"
  shows "(\<forall>e. compile w info asm_filename src_filename = Inl e \<longrightarrow> \<not> undefined_behaviour e) \<and>
    (\<forall>pre c post s. src = pre @ c # post \<and> scan w (start info) pre = Inr s \<longrightarrow>
       top s \<le> stack_size s \<and> length (stack s) = stack_size s \<and>
       (c = CHR '']'' \<longrightarrow> 0 < top s \<and> (\<exists>l. stack s ! (top s - 1) = Some l)) \<and>
       (c = CHR ''['' \<longrightarrow>
          (\<forall>s'. step w c s = Inr s' \<longrightarrow>
             top s < stack_size s' \<and> length (stack s') = stack_size s' \<and> top s' = Suc (top s))) \<and>
       (\<forall>e. step w c s = Inl e \<longrightarrow> \<not> undefined_behaviour e))"
proof -
  from assms(1) have c: "closes 0 src = Some 0" by (simp add: well_formed_def)
  have t: "0 \<le> top (start info)" by simp
  have t0: "top (start info) = 0" by (simp add: start_def)
  have run: "\<not> undefined_behaviour e" if "compile w info asm_filename src_filename = Inl e" for e
  proof -
    from scan_safe [OF good_start [of info] c t, of w]
    have "(\<exists>n. scan w (start info) src = Inl (Out_of_memory_increasing n)) \<or>
      (\<exists>s'. scan w (start info) src = Inr s')"
      by blast
    then show ?thesis using that assms(2)
      by (auto simp: compile_def split: if_splits sum.splits)
  qed
  have place: "top s \<le> stack_size s \<and> length (stack s) = stack_size s \<and>
       (c = CHR '']'' \<longrightarrow> 0 < top s \<and> (\<exists>l. stack s ! (top s - 1) = Some l)) \<and>
       (c = CHR ''['' \<longrightarrow>
          (\<forall>s'. step w c s = Inr s' \<longrightarrow>
             top s < stack_size s' \<and> length (stack s') = stack_size s' \<and> top s' = Suc (top s))) \<and>
       (\<forall>e. step w c s = Inl e \<longrightarrow> \<not> undefined_behaviour e)"
    if src: "src = pre @ c # post" and s: "scan w (start info) pre = Inr s" for pre c post s
  proof -
    from c src obtain k where k: "closes 0 pre = Some k" "closes k (c # post) = Some 0"
      by (auto simp: closes_append split: option.splits)
    from scan_safe [OF good_start [of info] k(1) t, of w] s
    have g: "good s" and d: "top s = k" using t0 by auto
    have pos: "0 < top s" if "c = CHR '']''"
      using that k(2) d by (cases k) auto
    have rd: "\<exists>l. stack s ! (top s - 1) = Some l" if "c = CHR '']''"
      using step_close [OF g pos [OF that], of w] by blast
    have wr: "top s < stack_size s' \<and> length (stack s') = stack_size s' \<and> top s' = Suc (top s)"
      if "c = CHR ''[''" "step w c s = Inr s'" for s'
    proof -
      from step_open [OF g, of w] that have "good s'" "top s' = Suc (top s)" by auto
      then show ?thesis by (auto simp: good_def)
    qed
    have ub: "\<not> undefined_behaviour e" if e: "step w c s = Inl e" for e
    proof -
      consider "c = CHR ''[''" | "c = CHR '']''" | "c \<noteq> CHR ''[''" "c \<noteq> CHR '']''" by blast
      then show ?thesis
      proof cases
        case 1
        then show ?thesis using step_open [OF g, of w] e by auto
      next
        case 2
        then show ?thesis using step_close [OF g pos [OF 2], of w] e by auto
      next
        case 3
        then show ?thesis using step_plain [OF 3, of w s] e by simp
      qed
    qed
    from g have "top s \<le> stack_size s" "length (stack s) = stack_size s"
      by (simp_all add: good_def)
    then show ?thesis using pos rd wr ub by blast
  qed
  show ?thesis using run place by blast
qed

theorem stack_accesses_in_bounds_witness:
  "well_formed ''[[-]]'' \<and>
   compile (friendly ''[[-]]'') default_info ''a.s'' ''a.bf'' =
     Inr (prologue default_info @ loop_head 1 @ loop_head 2 @
          [TAB # ''dec DWORD PTR [edi]'' @ [NL]] @ loop_tail 2 @ loop_tail 1 @ epilogue) \<and>
   (\<exists>s. scan (friendly ''[[-]]'') (start default_info) ''[[-'' = Inr s \<and>
      top s = 2 \<and> stack_size s = 1024 \<and> length (stack s) = 1024 \<and>
      stack s ! (top s - 1) = Some 2)"
proof -
  have wf: "well_formed ''[[-]]''" by (simp add: well_formed_def)
  have r: "readable (friendly ''[[-]]'') ''a.bf'' = Some ''[[-]]''"
    by (simp add: friendly_def holding_def)
  have c: "compile (friendly ''[[-]]'') default_info ''a.s'' ''a.bf'' =
     Inr (prologue default_info @ loop_head 1 @ loop_head 2 @
          [TAB # ''dec DWORD PTR [edi]'' @ [NL]] @ loop_tail 2 @ loop_tail 1 @ epilogue)"
    by (simp add: compile_def friendly_def holding_def writable_def plenty_def
      allocates_def STACK_SIZE_def sizeof_label_def PTRDIFF_MAX_def SIZE_MAX_def start_def
      step_def push_label_def pop_label_def fprintf_def loop_head_def loop_tail_def
      print_u_def digits.simps)
  obtain s where s: "scan (friendly ''[[-]]'') (start default_info) ''[[-'' = Inr s"
    by (simp add: STACK_SIZE_def start_def step_def push_label_def fprintf_def)
  have split: "''[[-]]'' = ''[[-'' @ CHR '']'' # '']''" by simp
  note here = stack_accesses_in_bounds [OF wf r, of default_info "''a.s''", THEN conjunct2,
      rule_format, of "''[[-''" "CHR '']''" "'']''" s]
  from here split s
  have "top s \<le> stack_size s \<and> length (stack s) = stack_size s \<and>
    0 < top s \<and> (\<exists>l. stack s ! (top s - 1) = Some l)"
    by blast
  moreover have "top s = 2 \<and> stack_size s = 1024 \<and> stack s ! (top s - 1) = Some 2"
    using s by (auto simp add: STACK_SIZE_def start_def step_def push_label_def fprintf_def)
  ultimately show ?thesis using wf c s by auto
qed


end
